theory Spec2Isabelle
  imports Main "HOL-Library.Char_ord"
begin

section \<open>Data model of chess.c\<close>

text \<open>
  The C program keeps the position in \<^verbatim>\<open>struct { char cell[8][8]; }\<close>, indexed
  \<^verbatim>\<open>cell[rank][file]\<close> with row 0 = rank 8 and row 7 = rank 1. A board is modelled as
  the function from the two (C \<^verbatim>\<open>int\<close>) indices to the byte stored there. Only the
  indices 0..7 exist in the C object; every read of the source is guarded by
  \<^verbatim>\<open>in_bounds\<close> or runs over loop indices 0..7.
\<close>

type_synonym board = "int \<Rightarrow> int \<Rightarrow> char"

record move =
  r1 :: int
  f1 :: int
  r2 :: int
  f2 :: int
  promotion :: char

definition MAX_MOVES :: int where
  "MAX_MOVES = 256"

definition INT_MIN :: int where
  "INT_MIN = - 2147483648"

definition INT_MAX :: int where
  "INT_MAX = 2147483647"

subsection \<open>ctype.h in the C locale\<close>

definition upper_letters :: string where
  "upper_letters = ''ABCDEFGHIJKLMNOPQRSTUVWXYZ''"

definition lower_letters :: string where
  "lower_letters = ''abcdefghijklmnopqrstuvwxyz''"

definition isupper :: "char \<Rightarrow> bool" where
  "isupper c = (c \<in> set upper_letters)"

definition islower :: "char \<Rightarrow> bool" where
  "islower c = (c \<in> set lower_letters)"

definition toupper :: "char \<Rightarrow> char" where
  "toupper c = (case map_of (zip lower_letters upper_letters) c of Some u \<Rightarrow> u | None \<Rightarrow> c)"

definition tolower :: "char \<Rightarrow> char" where
  "tolower c = (case map_of (zip upper_letters lower_letters) c of Some l \<Rightarrow> l | None \<Rightarrow> c)"

subsection \<open>Piece values and colours\<close>

definition piece_value :: "char \<Rightarrow> int" where
  "piece_value p =
     (let u = toupper p in
      if u = CHR ''P'' then 100
      else if u = CHR ''N'' then 320
      else if u = CHR ''B'' then 330
      else if u = CHR ''R'' then 500
      else if u = CHR ''Q'' then 900
      else if u = CHR ''K'' then 20000
      else 0)"

definition is_white :: "char \<Rightarrow> bool" where
  "is_white p = (p \<noteq> CHR 0x00 \<and> isupper p)"

definition is_black :: "char \<Rightarrow> bool" where
  "is_black p = (p \<noteq> CHR 0x00 \<and> islower p)"

definition same_color :: "char \<Rightarrow> char \<Rightarrow> bool" where
  "same_color a b =
     (if a = CHR ''.'' \<or> b = CHR ''.'' then False
      else (is_white a \<and> is_white b) \<or> (is_black a \<and> is_black b))"

definition in_bounds :: "int \<Rightarrow> int \<Rightarrow> bool" where
  "in_bounds r f = (r \<ge> 0 \<and> r < 8 \<and> f \<ge> 0 \<and> f < 8)"

text \<open>The loop ranges \<^verbatim>\<open>for (int r=0;r<8;r++)\<close> and the row-major double loop.\<close>

definition idx8 :: "int list" where
  "idx8 = [0, 1, 2, 3, 4, 5, 6, 7]"

definition cells :: "(int \<times> int) list" where
  "cells = List.product idx8 idx8"

definition init_rows :: "string list" where
  "init_rows =
     [''rnbqkbnr'', ''pppppppp'', ''........'', ''........'',
      ''........'', ''........'', ''PPPPPPPP'', ''RNBQKBNR'']"

text \<open>
  \<^verbatim>\<open>init_board\<close> stores \<^verbatim>\<open>init[r][f]\<close> into each of the 64 cells. Outside the
  8x8 array the model's function has no C counterpart; it is fixed to the NUL byte there.
\<close>

definition rows_cell :: "string list \<Rightarrow> board" where
  "rows_cell rows r f = (if in_bounds r f then rows ! nat r ! nat f else CHR 0x00)"

definition init_board :: board where
  "init_board r f = rows_cell init_rows r f"

definition set_cell :: "board \<Rightarrow> int \<Rightarrow> int \<Rightarrow> char \<Rightarrow> board" where
  "set_cell bd r f c r' f' = (if r' = r \<and> f' = f then c else bd r' f')"

section \<open>Move generation for one piece\<close>

definition mk_move :: "int \<Rightarrow> int \<Rightarrow> int \<Rightarrow> int \<Rightarrow> move" where
  "mk_move r f rr ff = \<lparr>r1 = r, f1 = f, r2 = rr, f2 = ff, promotion = CHR 0x00\<rparr>"

definition knight_offsets :: "(int \<times> int) list" where
  "knight_offsets = [(-2,-1), (-2,1), (-1,-2), (-1,2), (1,-2), (1,2), (2,-1), (2,1)]"

definition king_offsets :: "(int \<times> int) list" where
  "king_offsets = List.product [-1, 0, 1] [-1, 0, 1]"

definition rook_dirs :: "(int \<times> int) list" where
  "rook_dirs = [(1,0), (-1,0), (0,1), (0,-1)]"

definition bishop_dirs :: "(int \<times> int) list" where
  "bishop_dirs = [(1,1), (1,-1), (-1,1), (-1,-1)]"

text \<open>
  Every store of \<^verbatim>\<open>generate_piece_moves\<close> into its output buffer is the statement
  \<^verbatim>\<open>if (count < max_out) out[count++] = (Move){r,f,rr,ff,'\0'};\<close> and no branch of
  the function reads \<^verbatim>\<open>count\<close> or \<^verbatim>\<open>out\<close> otherwise. The functions
  \<open>*_candidates\<close> follow the control flow of the source and list, in program order, the
  moves with which that statement is reached.
\<close>

definition pawn_capture :: "board \<Rightarrow> int \<Rightarrow> int \<Rightarrow> char \<Rightarrow> int \<Rightarrow> int \<Rightarrow> move list" where
  "pawn_capture bd r f p pawn_step df =
     (let rf = r + pawn_step; ff = f + df
      in if in_bounds rf ff \<and> bd rf ff \<noteq> CHR ''.'' \<and> \<not> same_color p (bd rf ff)
         then [mk_move r f rf ff] else [])"

definition pawn_candidates :: "board \<Rightarrow> int \<Rightarrow> int \<Rightarrow> char \<Rightarrow> move list" where
  "pawn_candidates bd r f p =
     (let pawn_step = (if is_white p then -1 else 1);
          ra = r + pawn_step
      in (if in_bounds ra f \<and> bd ra f = CHR ''.'' then
            mk_move r f ra f #
            (let start_rank = (if is_white p then 6 else 1);
                 rb = r + 2 * pawn_step
             in if r = start_rank \<and> in_bounds rb f \<and> bd rb f = CHR ''.''
                then [mk_move r f rb f] else [])
          else [])
         @ concat (map (pawn_capture bd r f p pawn_step) [-1, 1]))"

text \<open>The body of the knight's loop over its eight offsets.\<close>

fun knight_target :: "board \<Rightarrow> int \<Rightarrow> int \<Rightarrow> char \<Rightarrow> int \<times> int \<Rightarrow> move list" where
  "knight_target bd r f p (dr, df) =
     (let rr = r + dr; ff = f + df
      in if \<not> in_bounds rr ff then []
         else if bd rr ff = CHR ''.'' \<or> \<not> same_color p (bd rr ff)
              then [mk_move r f rr ff] else [])"

definition knight_candidates :: "board \<Rightarrow> int \<Rightarrow> int \<Rightarrow> char \<Rightarrow> move list" where
  "knight_candidates bd r f p = concat (map (knight_target bd r f p) knight_offsets)"

text \<open>The body of the king's double loop over \<open>dr, df \<in> {-1, 0, 1}\<close>.\<close>

fun king_target :: "board \<Rightarrow> int \<Rightarrow> int \<Rightarrow> char \<Rightarrow> int \<times> int \<Rightarrow> move list" where
  "king_target bd r f p (dr, df) =
     (if dr = 0 \<and> df = 0 then []
      else let rr = r + dr; ff = f + df
           in if \<not> in_bounds rr ff then []
              else if bd rr ff = CHR ''.'' \<or> \<not> same_color p (bd rr ff)
                   then [mk_move r f rr ff] else [])"

definition king_candidates :: "board \<Rightarrow> int \<Rightarrow> int \<Rightarrow> char \<Rightarrow> move list" where
  "king_candidates bd r f p = concat (map (king_target bd r f p) king_offsets)"

text \<open>
  The inner \<^verbatim>\<open>while (in_bounds(rr,ff))\<close> loop of a sliding piece, from the square
  \<open>(rr, ff)\<close> on. The source runs it only with the direction vectors of its two tables,
  none of which is \<open>(0,0)\<close>; the test \<open>dr \<noteq> 0 \<or> df \<noteq> 0\<close> is what makes the recursion
  total for every argument and is true at every call of the program
  (lemma \<open>slide_dirs_nonzero\<close>).
\<close>

function slide :: "board \<Rightarrow> char \<Rightarrow> int \<Rightarrow> int \<Rightarrow> int \<Rightarrow> int \<Rightarrow> int \<Rightarrow> int \<Rightarrow> move list" where
  "slide bd p r f dr df rr ff =
     (if in_bounds rr ff \<and> (dr \<noteq> 0 \<or> df \<noteq> 0) then
        (if bd rr ff = CHR ''.'' then
           mk_move r f rr ff # slide bd p r f dr df (rr + dr) (ff + df)
         else if \<not> same_color p (bd rr ff) then [mk_move r f rr ff]
         else [])
      else [])"
  by pat_completeness auto
termination
  by (relation "measure (\<lambda>(bd, p, r, f, dr, df, rr, ff).
        if dr > 0 then nat (8 - rr) else if dr < 0 then nat (rr + 1)
        else if df > 0 then nat (8 - ff) else nat (ff + 1))")
     (auto simp: in_bounds_def)

declare slide.simps [simp del]

fun slide_from :: "board \<Rightarrow> char \<Rightarrow> int \<Rightarrow> int \<Rightarrow> int \<times> int \<Rightarrow> move list" where
  "slide_from bd p r f (dr, df) = slide bd p r f dr df (r + dr) (f + df)"

definition slide_candidates :: "board \<Rightarrow> int \<Rightarrow> int \<Rightarrow> char \<Rightarrow> (int \<times> int) list \<Rightarrow> move list" where
  "slide_candidates bd r f p dirs = concat (map (slide_from bd p r f) dirs)"

definition piece_candidates :: "board \<Rightarrow> int \<Rightarrow> int \<Rightarrow> bool \<Rightarrow> move list" where
  "piece_candidates bd r f white_turn =
     (let p = bd r f in
      if p = CHR ''.'' then []
      else
        let dir = (if white_turn then 1 else -1 :: int) in
        if toupper p = CHR ''P'' then pawn_candidates bd r f p
        else if toupper p = CHR ''N'' then knight_candidates bd r f p
        else if toupper p = CHR ''K'' then king_candidates bd r f p
        else
          (if toupper p = CHR ''R'' \<or> toupper p = CHR ''Q''
           then slide_candidates bd r f p rook_dirs else [])
          @ (if toupper p = CHR ''B'' \<or> toupper p = CHR ''Q''
             then slide_candidates bd r f p bishop_dirs else []))"

text \<open>
  The output buffer together with its fill count is the list of the entries
  \<^verbatim>\<open>out[0..count-1]\<close> written so far; \<open>emit\<close> is the guarded store.
\<close>

definition emit :: "int \<Rightarrow> move list \<Rightarrow> move \<Rightarrow> move list" where
  "emit max_out out m = (if int (length out) < max_out then out @ [m] else out)"

definition generate_piece_moves :: "board \<Rightarrow> int \<Rightarrow> int \<Rightarrow> int \<Rightarrow> bool \<Rightarrow> move list" where
  "generate_piece_moves bd r f max_out white_turn =
     foldl (emit max_out) [] (piece_candidates bd r f white_turn)"

section \<open>Legal moves, applying a move, check\<close>

text \<open>
  The first double loop of \<^verbatim>\<open>generate_legal_moves\<close>: \<open>all\<close> is the filled prefix of
  the local array (\<open>alln = length all\<close>); the \<^verbatim>\<open>break\<close> leaves the loop over the
  files of the current row only.
\<close>

fun pseudo_row :: "board \<Rightarrow> bool \<Rightarrow> int \<Rightarrow> int list \<Rightarrow> move list \<Rightarrow> move list" where
  "pseudo_row bd white_turn r [] all = all"
| "pseudo_row bd white_turn r (f # fs) all =
     (let p = bd r f in
      if p = CHR ''.'' then pseudo_row bd white_turn r fs all
      else if white_turn \<and> \<not> is_white p then pseudo_row bd white_turn r fs all
      else if \<not> white_turn \<and> \<not> is_black p then pseudo_row bd white_turn r fs all
      else
        let all' = all @ generate_piece_moves bd r f (MAX_MOVES - int (length all)) white_turn
        in if int (length all') \<ge> MAX_MOVES then all'
           else pseudo_row bd white_turn r fs all')"

definition pseudo_rows :: "board \<Rightarrow> bool \<Rightarrow> move list \<Rightarrow> int \<Rightarrow> move list" where
  "pseudo_rows bd white_turn all r = pseudo_row bd white_turn r idx8 all"

definition pseudo_legal :: "board \<Rightarrow> bool \<Rightarrow> move list" where
  "pseudo_legal bd white_turn = foldl (pseudo_rows bd white_turn) [] idx8"

text \<open>The scratch position \<^verbatim>\<open>tmp\<close> of the filter after the candidate was played on it.\<close>

definition simulate :: "board \<Rightarrow> move \<Rightarrow> board" where
  "simulate bd m =
     (let captured = bd (r2 m) (f2 m);
          mover = bd (r1 m) (f1 m);
          tmp = set_cell bd (r1 m) (f1 m) (CHR ''.'')
      in if toupper mover = CHR ''P'' \<and> (r2 m = 0 \<or> r2 m = 7)
         then set_cell tmp (r2 m) (f2 m) (if is_white mover then CHR ''Q'' else CHR ''q'')
         else set_cell tmp (r2 m) (f2 m) mover)"

text \<open>The king search: the whole board is scanned, the last match stays in \<open>(kr, kf)\<close>.\<close>

fun find_king_step :: "board \<Rightarrow> char \<Rightarrow> int \<times> int \<Rightarrow> int \<times> int \<Rightarrow> int \<times> int" where
  "find_king_step bd kingChar (kr, kf) (rr, ff) =
     (if bd rr ff = kingChar then (rr, ff) else (kr, kf))"

definition find_king :: "board \<Rightarrow> char \<Rightarrow> int \<times> int" where
  "find_king bd kingChar = foldl (find_king_step bd kingChar) (-1, -1) cells"

definition hits :: "move list \<Rightarrow> int \<Rightarrow> int \<Rightarrow> bool" where
  "hits ms kr kf = list_ex (\<lambda>m. r2 m = kr \<and> f2 m = kf) ms"

text \<open>
  The attack scan of the filter: both loops carry the condition \<^verbatim>\<open>!in_check\<close>, so
  once the flag is set no further cell is looked at.
\<close>

fun filter_step :: "board \<Rightarrow> bool \<Rightarrow> int \<Rightarrow> int \<Rightarrow> bool \<Rightarrow> int \<times> int \<Rightarrow> bool" where
  "filter_step tmp white_turn kr kf in_check (rr, ff) =
     (if in_check then in_check
      else let op = tmp rr ff in
        if op = CHR ''.'' then in_check
        else if white_turn \<and> is_white op then in_check
        else if \<not> white_turn \<and> is_black op then in_check
        else hits (generate_piece_moves tmp rr ff MAX_MOVES (\<not> white_turn)) kr kf)"

definition filter_scan :: "board \<Rightarrow> bool \<Rightarrow> int \<Rightarrow> int \<Rightarrow> bool" where
  "filter_scan tmp white_turn kr kf = foldl (filter_step tmp white_turn kr kf) False cells"

definition leaves_in_check :: "board \<Rightarrow> bool \<Rightarrow> move \<Rightarrow> bool" where
  "leaves_in_check bd white_turn m =
     (let tmp = simulate bd m;
          kingChar = (if white_turn then CHR ''K'' else CHR ''k'');
          k = find_king tmp kingChar
      in if fst k = -1 then True else filter_scan tmp white_turn (fst k) (snd k))"

definition legal_step :: "board \<Rightarrow> bool \<Rightarrow> move list \<Rightarrow> move \<Rightarrow> move list" where
  "legal_step bd white_turn out m =
     (if \<not> leaves_in_check bd white_turn m
      then (if int (length out) < MAX_MOVES then out @ [m] else out)
      else out)"

definition generate_legal_moves :: "board \<Rightarrow> bool \<Rightarrow> move list" where
  "generate_legal_moves bd white_turn = foldl (legal_step bd white_turn) [] (pseudo_legal bd white_turn)"

definition apply_move :: "board \<Rightarrow> move \<Rightarrow> board" where
  "apply_move bd m =
     (let mover = bd (r1 m) (f1 m);
          bd1 = set_cell bd (r1 m) (f1 m) (CHR ''.'')
      in if toupper mover = CHR ''P'' \<and> (r2 m = 0 \<or> r2 m = 7) \<and> promotion m \<noteq> CHR 0x00 then
           (let prom = promotion m;
                prom = (if is_black mover then tolower prom else prom)
            in set_cell bd1 (r2 m) (f2 m) prom)
         else if toupper mover = CHR ''P'' \<and> (r2 m = 0 \<or> r2 m = 7) \<and> promotion m = CHR 0x00 then
           set_cell bd1 (r2 m) (f2 m) (if is_white mover then CHR ''Q'' else CHR ''q'')
         else set_cell bd1 (r2 m) (f2 m) mover)"

fun evaluate_step :: "board \<Rightarrow> int \<Rightarrow> int \<times> int \<Rightarrow> int" where
  "evaluate_step bd score (r, f) =
     (let p = bd r f in
      if p = CHR ''.'' then score
      else let val = piece_value p in
           if is_white p then score + val else score - val)"

definition evaluate_board :: "board \<Rightarrow> int" where
  "evaluate_board bd = foldl (evaluate_step bd) 0 cells"

text \<open>\<^verbatim>\<open>is_in_check\<close> returns from inside its loops at the first attacking move.\<close>

fun check_scan :: "board \<Rightarrow> bool \<Rightarrow> int \<Rightarrow> int \<Rightarrow> (int \<times> int) list \<Rightarrow> bool" where
  "check_scan bd white_turn kr kf [] = False"
| "check_scan bd white_turn kr kf ((r, f) # cs) =
     (let p = bd r f in
      if p = CHR ''.'' then check_scan bd white_turn kr kf cs
      else if white_turn \<and> is_white p then check_scan bd white_turn kr kf cs
      else if \<not> white_turn \<and> is_black p then check_scan bd white_turn kr kf cs
      else if hits (generate_piece_moves bd r f MAX_MOVES (\<not> white_turn)) kr kf then True
      else check_scan bd white_turn kr kf cs)"

definition is_in_check :: "board \<Rightarrow> bool \<Rightarrow> bool" where
  "is_in_check bd white_turn =
     (let kingChar = (if white_turn then CHR ''K'' else CHR ''k'');
          k = find_king bd kingChar
      in if fst k = -1 then True else check_scan bd white_turn (fst k) (snd k) cells)"

section \<open>Search\<close>

text \<open>
  \<^verbatim>\<open>minimax\<close> recurses while \<^verbatim>\<open>depth != 0\<close> and the side to move has a legal
  move, so for a negative \<^verbatim>\<open>depth\<close> nothing bounds the recursion. The first argument
  of the model bounds the nesting of calls; \<open>None\<close> says that the recursion did not come
  back within that bound. \<open>max_loop\<close> and \<open>min_loop\<close> are the two \<^verbatim>\<open>for\<close> loops
  over \<^verbatim>\<open>moves[i]\<close>, carrying \<^verbatim>\<open>maxEval\<close> (\<^verbatim>\<open>minEval\<close>), \<^verbatim>\<open>alpha\<close> and
  \<^verbatim>\<open>beta\<close>. Scores are C \<^verbatim>\<open>int\<close>s; the only arithmetic on them is the sum of
  \<^verbatim>\<open>evaluate_board\<close>, which stays within 64 * 20000 (lemma \<open>evaluate_board_bound\<close>),
  so no operation of the search can overflow and scores are modelled as \<open>int\<close>.
\<close>

function minimax :: "nat \<Rightarrow> board \<Rightarrow> int \<Rightarrow> int \<Rightarrow> int \<Rightarrow> bool \<Rightarrow> int option"
  and max_loop :: "nat \<Rightarrow> board \<Rightarrow> move list \<Rightarrow> int \<Rightarrow> int \<Rightarrow> int \<Rightarrow> int \<Rightarrow> int option"
  and min_loop :: "nat \<Rightarrow> board \<Rightarrow> move list \<Rightarrow> int \<Rightarrow> int \<Rightarrow> int \<Rightarrow> int \<Rightarrow> int option"
where
  "minimax 0 bd depth alpha beta maximizingPlayer = None"
| "minimax (Suc fuel) bd depth alpha beta maximizingPlayer =
     (let moves = generate_legal_moves bd maximizingPlayer in
      if depth = 0 \<or> moves = [] then
        (if moves = [] then
           (if is_in_check bd maximizingPlayer
            then Some (if maximizingPlayer then - 1000000 else 1000000)
            else Some 0)
         else Some (evaluate_board bd))
      else if maximizingPlayer then max_loop fuel bd moves depth INT_MIN alpha beta
      else min_loop fuel bd moves depth INT_MAX alpha beta)"
| "max_loop fuel bd [] depth maxEval alpha beta = Some maxEval"
| "max_loop fuel bd (m # ms) depth maxEval alpha beta =
     (case minimax fuel (apply_move bd m) (depth - 1) alpha beta False of
        None \<Rightarrow> None
      | Some eval \<Rightarrow>
          (let maxEval' = (if eval > maxEval then eval else maxEval);
               alpha' = (if eval > alpha then eval else alpha)
           in if beta \<le> alpha' then Some maxEval'
              else max_loop fuel bd ms depth maxEval' alpha' beta))"
| "min_loop fuel bd [] depth minEval alpha beta = Some minEval"
| "min_loop fuel bd (m # ms) depth minEval alpha beta =
     (case minimax fuel (apply_move bd m) (depth - 1) alpha beta True of
        None \<Rightarrow> None
      | Some eval \<Rightarrow>
          (let minEval' = (if eval < minEval then eval else minEval);
               beta' = (if eval < beta then eval else beta)
           in if beta' \<le> alpha then Some minEval'
              else min_loop fuel bd ms depth minEval' alpha beta'))"
  by pat_completeness auto
termination
  by (relation "inv_image (less_than <*lex*> less_than) (\<lambda>x. case x of
         Inl (fuel, _) \<Rightarrow> (fuel, 0)
       | Inr (Inl (fuel, _, ms, _)) \<Rightarrow> (fuel, Suc (length ms))
       | Inr (Inr (fuel, _, ms, _)) \<Rightarrow> (fuel, Suc (length ms)))") auto

text \<open>
  \<^verbatim>\<open>choose_ai_move\<close>; \<open>AI_DEPTH\<close> is the global of that name, read at the call.
  \<^verbatim>\<open>INT_MIN/2\<close> is exact and \<^verbatim>\<open>INT_MAX/2\<close> has a positive dividend, so C's
  truncating division agrees with \<open>div\<close> on both.
\<close>

fun choose_loop :: "nat \<Rightarrow> int \<Rightarrow> board \<Rightarrow> bool \<Rightarrow> move list \<Rightarrow> int \<Rightarrow> move \<Rightarrow> move option" where
  "choose_loop fuel AI_DEPTH bd white_turn [] bestScore best = Some best"
| "choose_loop fuel AI_DEPTH bd white_turn (m # ms) bestScore best =
     (case minimax fuel (apply_move bd m) (AI_DEPTH - 1) (INT_MIN div 2) (INT_MAX div 2)
             (\<not> white_turn) of
        None \<Rightarrow> None
      | Some score \<Rightarrow>
          if white_turn then
            (if score > bestScore then choose_loop fuel AI_DEPTH bd white_turn ms score m
             else choose_loop fuel AI_DEPTH bd white_turn ms bestScore best)
          else
            (if score < bestScore then choose_loop fuel AI_DEPTH bd white_turn ms score m
             else choose_loop fuel AI_DEPTH bd white_turn ms bestScore best))"

definition choose_ai_move :: "nat \<Rightarrow> int \<Rightarrow> board \<Rightarrow> bool \<Rightarrow> move option" where
  "choose_ai_move fuel AI_DEPTH bd white_turn =
     (let moves = generate_legal_moves bd white_turn;
          best = mk_move 0 0 0 0
      in if moves = [] then Some best
         else choose_loop fuel AI_DEPTH bd white_turn moves
                (if white_turn then INT_MIN else INT_MAX) best)"

section \<open>The stores into the move buffers\<close>

text \<open>
  For the buffer discipline the stores themselves are modelled. A \<open>store_log\<close> lists, in
  program order, every assignment \<^verbatim>\<open>a[i] = v\<close> to one \<^verbatim>\<open>Move\<close> array as the pair
  \<open>(i, v)\<close>. \<open>emit_w\<close> is the statement
  \<^verbatim>\<open>if (count < max_out) out[count++] = m;\<close> on the pair of the log and \<^verbatim>\<open>count\<close>;
  indices are relative to the pointer \<^verbatim>\<open>out\<close> the function was given.
\<close>

type_synonym store_log = "(int \<times> move) list"

definition emit_w :: "int \<Rightarrow> store_log \<times> int \<Rightarrow> move \<Rightarrow> store_log \<times> int" where
  "emit_w max_out s m =
     (if snd s < max_out then (fst s @ [(snd s, m)], snd s + 1) else s)"

definition generate_piece_moves_w :: "board \<Rightarrow> int \<Rightarrow> int \<Rightarrow> int \<Rightarrow> bool \<Rightarrow> store_log \<times> int" where
  "generate_piece_moves_w bd r f max_out white_turn =
     foldl (emit_w max_out) ([], 0) (piece_candidates bd r f white_turn)"

text \<open>
  In \<^verbatim>\<open>generate_legal_moves\<close> the callee writes through \<^verbatim>\<open>all + alln\<close>, so its
  relative index \<open>i\<close> is the index \<open>alln + i\<close> of \<^verbatim>\<open>all\<close>.
\<close>

definition shift_log :: "int \<Rightarrow> store_log \<Rightarrow> store_log" where
  "shift_log base w = map (\<lambda>im. (base + fst im, snd im)) w"

fun pseudo_row_w :: "board \<Rightarrow> bool \<Rightarrow> int \<Rightarrow> int list \<Rightarrow> store_log \<times> int \<Rightarrow> store_log \<times> int" where
  "pseudo_row_w bd white_turn r [] s = s"
| "pseudo_row_w bd white_turn r (f # fs) s =
     (let p = bd r f; alln = snd s in
      if p = CHR ''.'' then pseudo_row_w bd white_turn r fs s
      else if white_turn \<and> \<not> is_white p then pseudo_row_w bd white_turn r fs s
      else if \<not> white_turn \<and> \<not> is_black p then pseudo_row_w bd white_turn r fs s
      else
        let g = generate_piece_moves_w bd r f (MAX_MOVES - alln) white_turn;
            s' = (fst s @ shift_log alln (fst g), alln + snd g)
        in if snd s' \<ge> MAX_MOVES then s'
           else pseudo_row_w bd white_turn r fs s')"

definition pseudo_rows_w :: "board \<Rightarrow> bool \<Rightarrow> store_log \<times> int \<Rightarrow> int \<Rightarrow> store_log \<times> int" where
  "pseudo_rows_w bd white_turn s r = pseudo_row_w bd white_turn r idx8 s"

definition pseudo_legal_w :: "board \<Rightarrow> bool \<Rightarrow> store_log \<times> int" where
  "pseudo_legal_w bd white_turn = foldl (pseudo_rows_w bd white_turn) ([], 0) idx8"

text \<open>
  Reading \<^verbatim>\<open>a[i]\<close> yields the value of the latest store to index \<open>i\<close>; the arrays
  are uninitialised locals, so a read of an index never stored to has no value
  (\<open>None\<close>), and the function reading it has no result.
\<close>

definition read_log :: "store_log \<Rightarrow> int \<Rightarrow> move option" where
  "read_log w i = map_of (rev w) i"

fun filter_w :: "board \<Rightarrow> bool \<Rightarrow> store_log \<Rightarrow> int list \<Rightarrow> store_log \<times> int \<Rightarrow> (store_log \<times> int) option" where
  "filter_w bd white_turn w_all [] s = Some s"
| "filter_w bd white_turn w_all (i # is) s =
     (case read_log w_all i of
        None \<Rightarrow> None
      | Some m \<Rightarrow>
          if \<not> leaves_in_check bd white_turn m
          then (if snd s < MAX_MOVES
                then filter_w bd white_turn w_all is (fst s @ [(snd s, m)], snd s + 1)
                else filter_w bd white_turn w_all is s)
          else filter_w bd white_turn w_all is s)"

text \<open>
  The result: the log of \<^verbatim>\<open>all\<close>, the log of \<^verbatim>\<open>out\<close> and the returned count.
\<close>

definition generate_legal_moves_w :: "board \<Rightarrow> bool \<Rightarrow> (store_log \<times> store_log \<times> int) option" where
  "generate_legal_moves_w bd white_turn =
     (let a = pseudo_legal_w bd white_turn in
      case filter_w bd white_turn (fst a) [0 .. snd a - 1] ([], 0) of
        None \<Rightarrow> None
      | Some s \<Rightarrow> Some (fst a, fst s, snd s))"

section \<open>Reference: minimax without pruning\<close>

text \<open>
  The unpruned search the specification compares \<^verbatim>\<open>minimax\<close> with: the same legal-move
  generator, the same terminal scoring and the same depth count, but every child of a
  node is searched and the node's value is the maximum (White to move) or the minimum
  (Black to move) of the values of its children. \<open>full_children\<close> collects the values of the
  children in move order. The first argument bounds the nesting of calls as in
  \<open>minimax\<close>.
\<close>

function full_minimax :: "nat \<Rightarrow> board \<Rightarrow> int \<Rightarrow> bool \<Rightarrow> int option"
  and full_children :: "nat \<Rightarrow> board \<Rightarrow> move list \<Rightarrow> int \<Rightarrow> bool \<Rightarrow> int list option"
where
  "full_minimax 0 bd depth maximizing = None"
| "full_minimax (Suc fuel) bd depth maximizing =
     (let moves = generate_legal_moves bd maximizing in
      if moves = [] then
        (if is_in_check bd maximizing
         then Some (if maximizing then - 1000000 else 1000000)
         else Some 0)
      else if depth = 0 then Some (evaluate_board bd)
      else
        (case full_children fuel bd moves depth maximizing of
           None \<Rightarrow> None
         | Some vs \<Rightarrow> Some (if maximizing then Max (set vs) else Min (set vs))))"
| "full_children fuel bd [] depth maximizing = Some []"
| "full_children fuel bd (m # ms) depth maximizing =
     (case full_minimax fuel (apply_move bd m) (depth - 1) (\<not> maximizing) of
        None \<Rightarrow> None
      | Some v \<Rightarrow>
          (case full_children fuel bd ms depth maximizing of
             None \<Rightarrow> None
           | Some vs \<Rightarrow> Some (v # vs)))"
  by pat_completeness auto
termination
  by (relation "inv_image (less_than <*lex*> less_than) (\<lambda>x. case x of
         Inl (fuel, _) \<Rightarrow> (fuel, 0)
       | Inr (fuel, _, ms, _) \<Rightarrow> (fuel, Suc (length ms)))") auto

section \<open>Auxiliary predicates of the proofs\<close>

text \<open>
  \<open>plain_from r f m\<close>: \<open>m\<close> starts on \<open>(r, f)\<close>, ends on the board and carries no
  promotion. \<open>own_piece wt p\<close>: \<open>p\<close> is a piece that the first loop of
  \<^verbatim>\<open>generate_legal_moves\<close> does not skip. \<open>same_occupancy a b\<close>: the two boards have
  the same empty cells and the same colour on every cell.
\<close>

definition plain_from :: "int \<Rightarrow> int \<Rightarrow> move \<Rightarrow> bool" where
  "plain_from r f m \<longleftrightarrow>
     r1 m = r \<and> f1 m = f \<and> promotion m = CHR 0x00 \<and> in_bounds (r2 m) (f2 m)"

definition own_piece :: "bool \<Rightarrow> char \<Rightarrow> bool" where
  "own_piece wt p \<longleftrightarrow> p \<noteq> CHR ''.'' \<and> (if wt then is_white p else is_black p)"

definition same_occupancy :: "board \<Rightarrow> board \<Rightarrow> bool" where
  "same_occupancy a b \<longleftrightarrow>
     (\<forall>r f. (a r f = CHR ''.'') = (b r f = CHR ''.'')
          \<and> is_white (a r f) = is_white (b r f)
          \<and> is_black (a r f) = is_black (b r f))"

text \<open>
  \<open>seq_log xs\<close>: the log of the stores \<open>a[0] = xs ! 0\<close>, \<open>a[1] = xs ! 1\<close>, \<dots> in
  this order, one store per element of \<open>xs\<close>.
\<close>

definition seq_log :: "move list \<Rightarrow> store_log" where
  "seq_log xs = zip (map int [0..<length xs]) xs"

section \<open>Positions used to instantiate the theorems\<close>

text \<open>White: Kh1. Black: Kf3, Qg2. White is mated.\<close>

definition mate_board :: board where
  "mate_board r f = rows_cell
     [''........'', ''........'', ''........'', ''........'',
      ''........'', ''.....k..'', ''......q.'', ''.......K''] r f"

text \<open>White: Kh1. Black: Kf2, Qg3. White is stalemated.\<close>

definition stale_board :: board where
  "stale_board r f = rows_cell
     [''........'', ''........'', ''........'', ''........'',
      ''........'', ''......q.'', ''.....k..'', ''.......K''] r f"

text \<open>White: Ke1, pawn a7. Black: Kh8, pawn h2. Both pawns are one step from promotion.\<close>

definition promo_board :: board where
  "promo_board r f = rows_cell
     [''.......k'', ''P.......'', ''........'', ''........'',
      ''........'', ''........'', ''.......p'', ''....K...''] r f"

text \<open>White: pawn a7 and no king. Black: Kh8.\<close>

definition no_king_board :: board where
  "no_king_board r f = rows_cell
     [''.......k'', ''P.......'', ''........'', ''........'',
      ''........'', ''........'', ''........'', ''........''] r f"

text \<open>White: Ka1. Black: Kc3. White has the two moves Ka2 and Kb1.\<close>

definition kings_board :: board where
  "kings_board r f = rows_cell
     [''........'', ''........'', ''........'', ''........'',
      ''........'', ''..k.....'', ''........'', ''K.......''] r f"

section \<open>Properties\<close>

subsection \<open>Evaluation of the test positions\<close>

lemma mate_board_eval:
  "generate_legal_moves mate_board True = []" "is_in_check mate_board True"
  by code_simp+

lemma stale_board_eval:
  "generate_legal_moves stale_board True = []" "\<not> is_in_check stale_board True"
  by code_simp+

lemma promo_board_white:
  "generate_legal_moves promo_board True =
     [mk_move 1 0 0 0, mk_move 7 4 6 3, mk_move 7 4 6 4, mk_move 7 4 6 5,
      mk_move 7 4 7 3, mk_move 7 4 7 5]"
  by code_simp

lemma promo_board_black:
  "generate_legal_moves promo_board False =
     [mk_move 0 7 0 6, mk_move 0 7 1 6, mk_move 0 7 1 7, mk_move 6 7 7 7]"
  by code_simp

lemma promo_board_cells:
  "promo_board 1 0 = CHR ''P''" "promo_board 6 7 = CHR ''p''" "evaluate_board promo_board = 0"
  by code_simp+

subsection \<open>Characters\<close>

lemma ctype_eval:
  "toupper (CHR ''P'') = CHR ''P''" "toupper (CHR ''p'') = CHR ''P''"
  "is_white (CHR ''P'')" "\<not> is_white (CHR ''p'')"
  "is_black (CHR ''p'')" "\<not> is_black (CHR ''P'')"
  by (simp_all add: toupper_def is_white_def is_black_def isupper_def islower_def
        upper_letters_def lower_letters_def)

lemma promo_letters:
  assumes "c \<in> {CHR ''Q'', CHR ''R'', CHR ''B'', CHR ''N''}"
  shows "c \<noteq> CHR 0x00" "toupper c = c" "toupper (tolower c) = c"
    "is_white c" "\<not> is_black c" "is_black (tolower c)" "\<not> is_white (tolower c)"
  using assms
  by (elim insertE emptyE;
      simp add: toupper_def tolower_def is_white_def is_black_def isupper_def islower_def
        upper_letters_def lower_letters_def)+

subsection \<open>The turn argument of the piece generator\<close>

lemma piece_candidates_turn:
  "piece_candidates bd r f white_turn = piece_candidates bd r f white_turn'"
  by (simp add: piece_candidates_def Let_def)

text \<open>
  C10. \<^verbatim>\<open>generate_piece_moves\<close> computes \<^verbatim>\<open>dir\<close> from \<^verbatim>\<open>white_turn\<close> and never
  uses it: with \<open>white_turn = 1\<close> and with \<open>white_turn = 0\<close> the function performs the same
  stores into its buffer and returns the same count, hence yields the same sequence of
  moves, for every board, cell and capacity.
\<close>

theorem white_turn_irrelevant:
  "generate_piece_moves_w bd r f max_out True = generate_piece_moves_w bd r f max_out False
   \<and> generate_piece_moves bd r f max_out True = generate_piece_moves bd r f max_out False"
  by (simp add: generate_piece_moves_def generate_piece_moves_w_def
        piece_candidates_turn [of bd r f True False])

subsection \<open>Promotion in \<^verbatim>\<open>apply_move\<close>\<close>

text \<open>
  C6. If the origin cell of \<open>m\<close> holds a white pawn and the destination row is 0, or it
  holds a black pawn and the destination row is 7, then \<^verbatim>\<open>apply_move\<close> leaves on the
  destination cell: with \<open>promotion m = '\0'\<close> the queen of the mover's side (\<open>Q\<close> for
  the white pawn, \<open>q\<close> for the black one); with a promotion letter among Q, R, B, N a
  piece of that kind (its upper-case letter is the promotion letter) and of the mover's
  colour.
\<close>

theorem default_queen_promotion:
  assumes pawn: "(bd (r1 m) (f1 m) = CHR ''P'' \<and> r2 m = 0) \<or> (bd (r1 m) (f1 m) = CHR ''p'' \<and> r2 m = 7)"
  shows "(promotion m = CHR 0x00 \<longrightarrow>
            apply_move bd m (r2 m) (f2 m) = (if bd (r1 m) (f1 m) = CHR ''P'' then CHR ''Q'' else CHR ''q''))
       \<and> (promotion m \<in> {CHR ''Q'', CHR ''R'', CHR ''B'', CHR ''N''} \<longrightarrow>
            toupper (apply_move bd m (r2 m) (f2 m)) = promotion m
          \<and> is_white (apply_move bd m (r2 m) (f2 m)) = is_white (bd (r1 m) (f1 m))
          \<and> is_black (apply_move bd m (r2 m) (f2 m)) = is_black (bd (r1 m) (f1 m)))"
proof (intro conjI impI)
  assume "promotion m = CHR 0x00"
  with pawn show "apply_move bd m (r2 m) (f2 m) = (if bd (r1 m) (f1 m) = CHR ''P'' then CHR ''Q'' else CHR ''q'')"
    by (auto simp: apply_move_def set_cell_def ctype_eval)
next
  assume c: "promotion m \<in> {CHR ''Q'', CHR ''R'', CHR ''B'', CHR ''N''}"
  note pl = promo_letters [OF c]
  have cell: "apply_move bd m (r2 m) (f2 m) =
      (if bd (r1 m) (f1 m) = CHR ''P'' then promotion m else tolower (promotion m))"
    using pawn pl(1) by (auto simp: apply_move_def set_cell_def ctype_eval)
  show "toupper (apply_move bd m (r2 m) (f2 m)) = promotion m"
    using pl by (simp add: cell)
  show "is_white (apply_move bd m (r2 m) (f2 m)) = is_white (bd (r1 m) (f1 m))"
    using pawn pl by (auto simp: cell ctype_eval)
  show "is_black (apply_move bd m (r2 m) (f2 m)) = is_black (bd (r1 m) (f1 m))"
    using pawn pl by (auto simp: cell ctype_eval)
qed

theorem default_queen_promotion_witness:
  "apply_move promo_board (mk_move 1 0 0 0) 0 0 = CHR ''Q''
   \<and> apply_move promo_board (mk_move 6 7 7 7) 7 7 = CHR ''q''
   \<and> toupper (apply_move promo_board ((mk_move 6 7 7 7)\<lparr>promotion := CHR ''N''\<rparr>) 7 7) = CHR ''N''
   \<and> is_black (apply_move promo_board ((mk_move 6 7 7 7)\<lparr>promotion := CHR ''N''\<rparr>) 7 7)"
  using default_queen_promotion [of promo_board "mk_move 1 0 0 0"]
    default_queen_promotion [of promo_board "mk_move 6 7 7 7"]
    default_queen_promotion [of promo_board "(mk_move 6 7 7 7)\<lparr>promotion := CHR ''N''\<rparr>"]
  by (simp add: mk_move_def promo_board_cells ctype_eval)

subsection \<open>Terminal scoring of the search\<close>

text \<open>
  C3. When the side to move has no legal move, \<^verbatim>\<open>minimax\<close> returns, whatever the depth
  and the window, -1000000 for White to move and +1000000 for Black to move if that side
  is in check, and 0 if it is not; when it has a legal move and \<open>depth = 0\<close>, the value of
  \<^verbatim>\<open>evaluate_board\<close>.
\<close>

theorem minimax_terminal:
  assumes "generate_legal_moves bd maximizingPlayer = [] \<or> depth = 0"
  shows "minimax (Suc fuel) bd depth alpha beta maximizingPlayer =
           Some (if generate_legal_moves bd maximizingPlayer = []
                 then (if is_in_check bd maximizingPlayer
                       then (if maximizingPlayer then - 1000000 else 1000000)
                       else 0)
                 else evaluate_board bd)"
proof (cases "generate_legal_moves bd maximizingPlayer = []")
  case True
  then show ?thesis by (simp add: Let_def)
next
  case False
  with assms have "depth = 0" by simp
  with False show ?thesis by (simp add: Let_def)
qed

theorem minimax_terminal_witness:
  "minimax (Suc 0) mate_board 2 (INT_MIN div 2) (INT_MAX div 2) True = Some (- 1000000)
   \<and> minimax (Suc 0) stale_board 2 (INT_MIN div 2) (INT_MAX div 2) True = Some 0
   \<and> minimax (Suc 0) promo_board 0 (INT_MIN div 2) (INT_MAX div 2) True = Some 0"
  using minimax_terminal [of mate_board True 2 0 "INT_MIN div 2" "INT_MAX div 2"]
    minimax_terminal [of stale_board True 2 0 "INT_MIN div 2" "INT_MAX div 2"]
    minimax_terminal [of promo_board True 0 0 "INT_MIN div 2" "INT_MAX div 2"]
  by (simp add: mate_board_eval stale_board_eval promo_board_white promo_board_cells)

subsection \<open>The start position\<close>

lemma start_position_eval:
  "generate_legal_moves init_board True =
     [mk_move 6 0 5 0, mk_move 6 0 4 0, mk_move 6 1 5 1, mk_move 6 1 4 1,
      mk_move 6 2 5 2, mk_move 6 2 4 2, mk_move 6 3 5 3, mk_move 6 3 4 3,
      mk_move 6 4 5 4, mk_move 6 4 4 4, mk_move 6 5 5 5, mk_move 6 5 4 5,
      mk_move 6 6 5 6, mk_move 6 6 4 6, mk_move 6 7 5 7, mk_move 6 7 4 7,
      mk_move 7 1 5 0, mk_move 7 1 5 2, mk_move 7 6 5 5, mk_move 7 6 5 7]"
  by code_simp

lemma start_position_cells:
  "map (\<lambda>f. init_board 6 f) idx8 = ''PPPPPPPP''"
  "init_board 7 1 = CHR ''N''" "init_board 7 6 = CHR ''N''"
  by code_simp+

text \<open>
  C5. For the board of \<^verbatim>\<open>init_board\<close> and White to move, \<^verbatim>\<open>generate_legal_moves\<close>
  returns exactly 20 moves: for each of the eight pawns of row 6 its single and its
  double advance, then the two moves of the knight on b1 and the two of the knight on g1.
\<close>

theorem start_position_moves:
  "length (generate_legal_moves init_board True) = 20
   \<and> generate_legal_moves init_board True =
       concat (map (\<lambda>f. [mk_move 6 f 5 f, mk_move 6 f 4 f]) idx8)
       @ [mk_move 7 1 5 0, mk_move 7 1 5 2, mk_move 7 6 5 5, mk_move 7 6 5 7]
   \<and> map (\<lambda>f. init_board 6 f) idx8 = ''PPPPPPPP''
   \<and> init_board 7 1 = CHR ''N'' \<and> init_board 7 6 = CHR ''N''"
  by (simp add: start_position_eval start_position_cells) (simp add: idx8_def)

subsection \<open>The king search and the legality filter\<close>

lemma in_cells: "(r, f) \<in> set cells \<longleftrightarrow> r \<in> set idx8 \<and> f \<in> set idx8"
  by (simp add: cells_def)

lemma idx8_iff: "r \<in> set idx8 \<longleftrightarrow> 0 \<le> r \<and> r < 8"
  unfolding idx8_def by (simp; presburger)

lemma in_cells_pair: "c \<in> set cells \<Longrightarrow> fst c \<in> set idx8 \<and> snd c \<in> set idx8"
  by (cases c) (simp add: in_cells)

lemma in_cells_bounds: "(r, f) \<in> set cells \<longleftrightarrow> in_bounds r f"
  by (simp add: in_cells idx8_iff in_bounds_def)

lemma find_king_fold_cases:
  "foldl (find_king_step bd kc) k cs = k
   \<or> (foldl (find_king_step bd kc) k cs \<in> set cs
       \<and> bd (fst (foldl (find_king_step bd kc) k cs)) (snd (foldl (find_king_step bd kc) k cs)) = kc)"
proof (induction cs arbitrary: k)
  case Nil
  then show ?case by simp
next
  case (Cons c cs)
  obtain kr kf where k: "k = (kr, kf)" by (cases k)
  obtain rr ff where c: "c = (rr, ff)" by (cases c)
  show ?case
  proof (cases "bd rr ff = kc")
    case True
    with Cons.IH [of "(rr, ff)"] show ?thesis by (auto simp: k c)
  next
    case False
    with Cons.IH [of "(kr, kf)"] show ?thesis by (auto simp: k c)
  qed
qed

lemma find_king_fold_absent:
  "\<forall>c \<in> set cs. bd (fst c) (snd c) \<noteq> kc \<Longrightarrow> foldl (find_king_step bd kc) k cs = k"
  using find_king_fold_cases [of bd kc k cs] by auto

lemma find_king_absent:
  assumes "\<forall>r \<in> set idx8. \<forall>f \<in> set idx8. bd r f \<noteq> kc"
  shows "find_king bd kc = (-1, -1)"
proof -
  have "\<forall>c \<in> set cells. bd (fst c) (snd c) \<noteq> kc"
  proof
    fix c assume "c \<in> set cells"
    then have "fst c \<in> set idx8" "snd c \<in> set idx8"
      by (simp_all add: in_cells_pair)
    with assms show "bd (fst c) (snd c) \<noteq> kc" by blast
  qed
  then show ?thesis
    unfolding find_king_def by (rule find_king_fold_absent)
qed

lemma find_king_present:
  assumes "fst (find_king bd kc) \<noteq> -1"
  shows "\<exists>r \<in> set idx8. \<exists>f \<in> set idx8. bd r f = kc"
proof -
  let ?k = "find_king bd kc"
  from assms have "?k \<noteq> (-1, -1)" by auto
  with find_king_fold_cases [of bd kc "(-1, -1)" cells]
  have "?k \<in> set cells" and "bd (fst ?k) (snd ?k) = kc"
    by (auto simp: find_king_def)
  moreover from \<open>?k \<in> set cells\<close> have "fst ?k \<in> set idx8" "snd ?k \<in> set idx8"
    by (simp_all add: in_cells_pair)
  ultimately show ?thesis by blast
qed

lemma legal_step_cases:
  "legal_step bd wt out a = out \<or> (legal_step bd wt out a = out @ [a] \<and> \<not> leaves_in_check bd wt a)"
  by (simp add: legal_step_def)

lemma legal_fold_subset:
  "m \<in> set (foldl (legal_step bd wt) out ms) \<Longrightarrow>
     m \<in> set out \<or> (m \<in> set ms \<and> \<not> leaves_in_check bd wt m)"
proof (induction ms arbitrary: out)
  case Nil
  then show ?case by simp
next
  case (Cons a ms)
  from Cons.prems have "m \<in> set (foldl (legal_step bd wt) (legal_step bd wt out a) ms)"
    by simp
  from Cons.IH [OF this] legal_step_cases [of bd wt out a] show ?case
    by auto
qed

lemma legal_move_passes:
  "m \<in> set (generate_legal_moves bd wt) \<Longrightarrow>
     m \<in> set (pseudo_legal bd wt) \<and> \<not> leaves_in_check bd wt m"
  using legal_fold_subset [of m bd wt "[]" "pseudo_legal bd wt"]
  by (simp add: generate_legal_moves_def)

text \<open>
  C8. On a board none of whose 64 cells holds the king character of the given side
  (\<open>K\<close> for White, \<open>k\<close> for Black) \<^verbatim>\<open>is_in_check\<close> returns 1. In the filter of
  \<^verbatim>\<open>generate_legal_moves\<close>, a candidate whose simulated position holds the mover's
  king character on no cell is counted as leaving the mover in check and is not among
  the moves returned.
\<close>

theorem missing_king_fail_safe:
  "((\<forall>r \<in> set idx8. \<forall>f \<in> set idx8. bd r f \<noteq> (if white_turn then CHR ''K'' else CHR ''k''))
      \<longrightarrow> is_in_check bd white_turn)
   \<and> ((\<forall>r \<in> set idx8. \<forall>f \<in> set idx8.
          simulate bd m r f \<noteq> (if white_turn then CHR ''K'' else CHR ''k''))
      \<longrightarrow> leaves_in_check bd white_turn m \<and> m \<notin> set (generate_legal_moves bd white_turn))"
proof (intro conjI impI)
  let ?kc = "if white_turn then CHR ''K'' else CHR ''k''"
  assume "\<forall>r \<in> set idx8. \<forall>f \<in> set idx8. bd r f \<noteq> ?kc"
  then have "find_king bd ?kc = (-1, -1)" by (rule find_king_absent)
  then show "is_in_check bd white_turn"
    by (simp add: is_in_check_def Let_def)
next
  let ?kc = "if white_turn then CHR ''K'' else CHR ''k''"
  assume "\<forall>r \<in> set idx8. \<forall>f \<in> set idx8. simulate bd m r f \<noteq> ?kc"
  then have "find_king (simulate bd m) ?kc = (-1, -1)" by (rule find_king_absent)
  then show "leaves_in_check bd white_turn m"
    by (simp add: leaves_in_check_def Let_def)
  then show "m \<notin> set (generate_legal_moves bd white_turn)"
    using legal_move_passes [of m bd white_turn] by blast
qed

lemma no_king_board_eval:
  "\<forall>r \<in> set idx8. \<forall>f \<in> set idx8. no_king_board r f \<noteq> CHR ''K''"
  "\<forall>r \<in> set idx8. \<forall>f \<in> set idx8. simulate no_king_board (mk_move 1 0 0 0) r f \<noteq> CHR ''K''"
  "pseudo_legal no_king_board True = [mk_move 1 0 0 0]"
  by code_simp+

theorem missing_king_fail_safe_witness:
  "is_in_check no_king_board True
   \<and> leaves_in_check no_king_board True (mk_move 1 0 0 0)
   \<and> mk_move 1 0 0 0 \<in> set (pseudo_legal no_king_board True)
   \<and> mk_move 1 0 0 0 \<notin> set (generate_legal_moves no_king_board True)"
  using missing_king_fail_safe [of no_king_board True "mk_move 1 0 0 0"] no_king_board_eval
  by simp

subsection \<open>Shape of the generated moves\<close>

lemma emit_fold:
  "foldl (emit max_out) out cs = out @ take (nat (max_out - int (length out))) cs"
proof (induction cs arbitrary: out)
  case Nil
  then show ?case by simp
next
  case (Cons c cs)
  show ?case
  proof (cases "int (length out) < max_out")
    case True
    then have e: "emit max_out out c = out @ [c]" by (simp add: emit_def)
    from True have n: "nat (max_out - int (length out)) = Suc (nat (max_out - int (length (out @ [c]))))"
      by simp
    have "foldl (emit max_out) out (c # cs) = foldl (emit max_out) (out @ [c]) cs"
      by (simp add: e)
    also have "\<dots> = (out @ [c]) @ take (nat (max_out - int (length (out @ [c])))) cs"
      by (rule Cons.IH)
    also have "\<dots> = out @ take (nat (max_out - int (length out))) (c # cs)"
      unfolding n by simp
    finally show ?thesis .
  next
    case False
    then have e: "emit max_out out c = out" by (simp add: emit_def)
    from False have n: "nat (max_out - int (length out)) = 0" by simp
    have "foldl (emit max_out) out (c # cs) = foldl (emit max_out) out cs"
      by (simp add: e)
    also have "\<dots> = out @ take (nat (max_out - int (length out))) cs"
      by (rule Cons.IH)
    finally show ?thesis unfolding n by simp
  qed
qed

lemma generate_piece_moves_take:
  "generate_piece_moves bd r f max_out wt = take (nat max_out) (piece_candidates bd r f wt)"
  by (simp add: generate_piece_moves_def emit_fold)

lemma plain_from_mk: "in_bounds rr ff \<Longrightarrow> plain_from r f (mk_move r f rr ff)"
  by (simp add: plain_from_def mk_move_def)

lemma slide_plain: "m \<in> set (slide bd p r f dr df rr ff) \<Longrightarrow> plain_from r f m"
proof (induction bd p r f dr df rr ff rule: slide.induct)
  case (1 bd p r f dr df rr ff)
  show ?case
  proof (cases "in_bounds rr ff \<and> (dr \<noteq> 0 \<or> df \<noteq> 0)")
    case False
    with "1.prems" show ?thesis by (simp add: slide.simps [of bd p r f dr df rr ff])
  next
    case True
    show ?thesis
    proof (cases "bd rr ff = CHR ''.''")
      case empty: True
      with True "1.prems" have "m = mk_move r f rr ff \<or> m \<in> set (slide bd p r f dr df (rr + dr) (ff + df))"
        by (simp add: slide.simps [of bd p r f dr df rr ff])
      with "1.IH" [OF True empty] True show ?thesis
        by (auto simp: plain_from_mk)
    next
      case False
      with True "1.prems" have "m = mk_move r f rr ff"
        by (simp add: slide.simps [of bd p r f dr df rr ff] split: if_splits)
      with True show ?thesis by (simp add: plain_from_mk)
    qed
  qed
qed

lemma slide_candidates_plain: "m \<in> set (slide_candidates bd r f p dirs) \<Longrightarrow> plain_from r f m"
  by (auto simp: slide_candidates_def dest: slide_plain)

lemma pawn_capture_plain: "m \<in> set (pawn_capture bd r f p st df) \<Longrightarrow> plain_from r f m"
  by (auto simp: pawn_capture_def Let_def plain_from_mk split: if_splits)

lemma pawn_candidates_plain: "m \<in> set (pawn_candidates bd r f p) \<Longrightarrow> plain_from r f m"
  by (auto simp: pawn_candidates_def Let_def plain_from_mk split: if_splits
      dest: pawn_capture_plain)

lemma knight_target_plain: "m \<in> set (knight_target bd r f p d) \<Longrightarrow> plain_from r f m"
  by (cases d) (auto simp: Let_def plain_from_mk split: if_splits)

lemma knight_candidates_plain: "m \<in> set (knight_candidates bd r f p) \<Longrightarrow> plain_from r f m"
  by (auto simp: knight_candidates_def dest: knight_target_plain)

lemma king_target_plain: "m \<in> set (king_target bd r f p d) \<Longrightarrow> plain_from r f m"
  by (cases d) (auto simp: Let_def plain_from_mk split: if_splits)

lemma king_candidates_plain: "m \<in> set (king_candidates bd r f p) \<Longrightarrow> plain_from r f m"
  by (auto simp: king_candidates_def dest: king_target_plain)

lemma piece_candidates_plain: "m \<in> set (piece_candidates bd r f wt) \<Longrightarrow> plain_from r f m"
  by (auto simp: piece_candidates_def Let_def split: if_splits
      dest: pawn_candidates_plain knight_candidates_plain king_candidates_plain
        slide_candidates_plain)

lemma generate_piece_moves_plain:
  "m \<in> set (generate_piece_moves bd r f max_out wt) \<Longrightarrow> plain_from r f m"
  by (auto simp: generate_piece_moves_take dest: in_set_takeD piece_candidates_plain)

lemma pseudo_row_skip:
  "\<not> own_piece wt (bd r f) \<Longrightarrow> pseudo_row bd wt r (f # fs) all = pseudo_row bd wt r fs all"
  by (cases wt) (auto simp: own_piece_def Let_def)

lemma pseudo_row_own:
  "own_piece wt (bd r f) \<Longrightarrow>
     pseudo_row bd wt r (f # fs) all =
       (let all' = all @ generate_piece_moves bd r f (MAX_MOVES - int (length all)) wt
        in if int (length all') \<ge> MAX_MOVES then all' else pseudo_row bd wt r fs all')"
  by (cases wt) (simp_all add: own_piece_def Let_def)

lemma pseudo_row_origin:
  "m \<in> set (pseudo_row bd wt r fs all) \<Longrightarrow>
     m \<in> set all \<or> (\<exists>f \<in> set fs. own_piece wt (bd r f) \<and> plain_from r f m)"
proof (induction fs arbitrary: all)
  case Nil
  then show ?case by simp
next
  case (Cons f fs)
  show ?case
  proof (cases "own_piece wt (bd r f)")
    case False
    from Cons.prems have "m \<in> set (pseudo_row bd wt r fs all)"
      unfolding pseudo_row_skip [of wt bd r f fs all, OF False] .
    from Cons.IH [OF this] show ?thesis by auto
  next
    case True
    let ?all' = "all @ generate_piece_moves bd r f (MAX_MOVES - int (length all)) wt"
    have "m \<in> set ?all' \<or> (\<exists>f \<in> set fs. own_piece wt (bd r f) \<and> plain_from r f m)"
    proof (cases "int (length ?all') \<ge> MAX_MOVES")
      case full: True
      with Cons.prems have "m \<in> set ?all'"
        by (simp only: pseudo_row_own [of wt bd r f fs all, OF True] Let_def if_True)
      then show ?thesis ..
    next
      case False
      with Cons.prems have "m \<in> set (pseudo_row bd wt r fs ?all')"
        by (simp only: pseudo_row_own [of wt bd r f fs all, OF True] Let_def if_False)
      from Cons.IH [OF this] show ?thesis .
    qed
    then consider "m \<in> set all" | "m \<in> set (generate_piece_moves bd r f (MAX_MOVES - int (length all)) wt)"
      | "\<exists>f \<in> set fs. own_piece wt (bd r f) \<and> plain_from r f m"
      by auto
    then show ?thesis
    proof cases
      case 1
      then show ?thesis by simp
    next
      case 2
      then have "plain_from r f m" by (rule generate_piece_moves_plain)
      with True show ?thesis by auto
    next
      case 3
      then show ?thesis by auto
    qed
  qed
qed

lemma pseudo_rows_origin:
  "m \<in> set (foldl (pseudo_rows bd wt) all rs) \<Longrightarrow>
     m \<in> set all \<or> (\<exists>r \<in> set rs. \<exists>f \<in> set idx8. own_piece wt (bd r f) \<and> plain_from r f m)"
proof (induction rs arbitrary: all)
  case Nil
  then show ?case by simp
next
  case (Cons r rs)
  have "pseudo_rows bd wt all r = pseudo_row bd wt r idx8 all"
    by (simp add: pseudo_rows_def)
  with Cons.prems have "m \<in> set (foldl (pseudo_rows bd wt) (pseudo_row bd wt r idx8 all) rs)"
    by (simp only: foldl_Cons)
  from Cons.IH [OF this] pseudo_row_origin [of m bd wt r idx8 all] show ?case
    by auto
qed

lemma pseudo_legal_origin:
  assumes "m \<in> set (pseudo_legal bd wt)"
  shows "own_piece wt (bd (r1 m) (f1 m))" "promotion m = CHR 0x00"
    "in_bounds (r1 m) (f1 m)" "in_bounds (r2 m) (f2 m)"
proof -
  from pseudo_rows_origin [of m bd wt "[]" idx8] assms
  obtain r f where rf: "r \<in> set idx8" "f \<in> set idx8" "own_piece wt (bd r f)" "plain_from r f m"
    by (auto simp: pseudo_legal_def)
  then show "own_piece wt (bd (r1 m) (f1 m))" "promotion m = CHR 0x00" "in_bounds (r2 m) (f2 m)"
    by (simp_all add: plain_from_def)
  from rf show "in_bounds (r1 m) (f1 m)"
    by (simp add: plain_from_def in_bounds_def idx8_iff)
qed

lemma filter_scan_fold:
  "foldl (filter_step tmp wt kr kf) b cs = (b \<or> check_scan tmp wt kr kf cs)"
proof (induction cs arbitrary: b)
  case Nil
  then show ?case by simp
next
  case (Cons c cs)
  obtain rr ff where c: "c = (rr, ff)" by (cases c)
  show ?case
    unfolding c by (simp add: Cons.IH Let_def)
qed

lemma filter_scan_check_scan: "filter_scan tmp wt kr kf = check_scan tmp wt kr kf cells"
  by (simp add: filter_scan_def filter_scan_fold)

lemma simulate_apply_move:
  "promotion m = CHR 0x00 \<Longrightarrow> simulate bd m = apply_move bd m"
  by (simp add: simulate_def apply_move_def Let_def)

lemma leaves_in_check_is_in_check:
  "promotion m = CHR 0x00 \<Longrightarrow> leaves_in_check bd wt m = is_in_check (apply_move bd m) wt"
  by (simp add: leaves_in_check_def is_in_check_def simulate_apply_move
      filter_scan_check_scan Let_def)

subsection \<open>Check depends on colours and empty cells only\<close>

lemma same_occupancyD:
  assumes "same_occupancy a b"
  shows "(a r f = CHR ''.'') = (b r f = CHR ''.'')"
    "is_white (a r f) = is_white (b r f)" "is_black (a r f) = is_black (b r f)"
    "same_color p (a r f) = same_color p (b r f)"
  using assms by (simp_all add: same_occupancy_def same_color_def)

lemma slide_occ:
  "same_occupancy a b \<Longrightarrow> slide a p r f dr df rr ff = slide b p r f dr df rr ff"
proof (induction a p r f dr df rr ff rule: slide.induct)
  case (1 a p r f dr df rr ff)
  note occ = same_occupancyD [OF "1.prems", where r = rr and f = ff]
  show ?case
  proof (cases "in_bounds rr ff \<and> (dr \<noteq> 0 \<or> df \<noteq> 0)")
    case False
    then show ?thesis
      by (simp add: slide.simps [of a p r f dr df rr ff] slide.simps [of b p r f dr df rr ff])
  next
    case True
    show ?thesis
    proof (cases "a rr ff = CHR ''.''")
      case empty: True
      from "1.IH" [OF True empty "1.prems"] True empty occ(1) show ?thesis
        by (simp add: slide.simps [of a p r f dr df rr ff] slide.simps [of b p r f dr df rr ff])
    next
      case False
      with True occ(1) occ(4) [where p = p] show ?thesis
        by (simp add: slide.simps [of a p r f dr df rr ff] slide.simps [of b p r f dr df rr ff])
    qed
  qed
qed

lemma slide_candidates_occ:
  "same_occupancy a b \<Longrightarrow> slide_candidates a r f p dirs = slide_candidates b r f p dirs"
proof -
  assume occ: "same_occupancy a b"
  have "slide_from a p r f d = slide_from b p r f d" for d
    by (cases d) (simp add: slide_occ [OF occ])
  then have "slide_from a p r f = slide_from b p r f" by (intro ext)
  then show ?thesis by (simp add: slide_candidates_def)
qed

lemma pawn_candidates_occ:
  assumes occ: "same_occupancy a b"
  shows "pawn_candidates a r f p = pawn_candidates b r f p"
proof -
  have "pawn_capture a r f p st df = pawn_capture b r f p st df" for st df
    by (simp add: pawn_capture_def Let_def same_occupancyD [OF occ])
  then have "pawn_capture a r f p st = pawn_capture b r f p st" for st by (intro ext)
  then show ?thesis
    by (simp add: pawn_candidates_def Let_def same_occupancyD(1) [OF occ])
qed

lemma knight_candidates_occ:
  assumes occ: "same_occupancy a b"
  shows "knight_candidates a r f p = knight_candidates b r f p"
proof -
  have "knight_target a r f p d = knight_target b r f p d" for d
    by (cases d) (simp add: Let_def same_occupancyD [OF occ])
  then have "knight_target a r f p = knight_target b r f p" by (intro ext)
  then show ?thesis by (simp add: knight_candidates_def)
qed

lemma king_candidates_occ:
  assumes occ: "same_occupancy a b"
  shows "king_candidates a r f p = king_candidates b r f p"
proof -
  have "king_target a r f p d = king_target b r f p d" for d
    by (cases d) (simp add: Let_def same_occupancyD [OF occ])
  then have "king_target a r f p = king_target b r f p" by (intro ext)
  then show ?thesis by (simp add: king_candidates_def)
qed

lemma piece_candidates_occ:
  assumes "same_occupancy a b" "a r f = b r f"
  shows "piece_candidates a r f wt = piece_candidates b r f wt"
  using assms(2)
  by (simp add: piece_candidates_def Let_def pawn_candidates_occ [OF assms(1)]
      knight_candidates_occ [OF assms(1)] king_candidates_occ [OF assms(1)]
      slide_candidates_occ [OF assms(1)])

lemma check_scan_skip:
  "own_piece wt (bd r f) \<or> bd r f = CHR ''.'' \<Longrightarrow>
     check_scan bd wt kr kf ((r, f) # cs) = check_scan bd wt kr kf cs"
  by (cases wt) (auto simp: own_piece_def Let_def)

lemma check_scan_look:
  "\<not> (own_piece wt (bd r f) \<or> bd r f = CHR ''.'') \<Longrightarrow>
     check_scan bd wt kr kf ((r, f) # cs) =
       (hits (generate_piece_moves bd r f MAX_MOVES (\<not> wt)) kr kf \<or> check_scan bd wt kr kf cs)"
  by (cases wt) (auto simp: own_piece_def Let_def)

lemma check_scan_occ:
  assumes occ: "same_occupancy a b"
    and diff: "\<And>r f. a r f \<noteq> b r f \<Longrightarrow> own_piece wt (a r f)"
  shows "check_scan a wt kr kf cs = check_scan b wt kr kf cs"
proof (induction cs)
  case Nil
  then show ?case by simp
next
  case (Cons c cs)
  obtain r f where c: "c = (r, f)" by (cases c)
  note o = same_occupancyD [OF occ, where r = r and f = f]
  show ?case
  proof (cases "own_piece wt (a r f) \<or> a r f = CHR ''.''")
    case True
    then have "check_scan a wt kr kf (c # cs) = check_scan a wt kr kf cs"
      unfolding c by (rule check_scan_skip)
    moreover from True o have "own_piece wt (b r f) \<or> b r f = CHR ''.''"
      by (auto simp: own_piece_def)
    then have "check_scan b wt kr kf (c # cs) = check_scan b wt kr kf cs"
      unfolding c by (rule check_scan_skip)
    ultimately show ?thesis by (simp only: Cons.IH)
  next
    case False
    with diff [of r f] have eq: "a r f = b r f" by blast
    have "generate_piece_moves a r f MAX_MOVES (\<not> wt) = generate_piece_moves b r f MAX_MOVES (\<not> wt)"
      by (simp add: generate_piece_moves_def piece_candidates_occ [OF occ eq])
    moreover from False eq have nb: "\<not> (own_piece wt (b r f) \<or> b r f = CHR ''.'')" by simp
    ultimately show ?thesis
      unfolding c
      by (simp only: check_scan_look [of wt a r f, OF False] check_scan_look [of wt b r f, OF nb]
          Cons.IH)
  qed
qed

lemma find_king_occ:
  assumes "\<And>r f. (a r f = kc) = (b r f = kc)"
  shows "find_king a kc = find_king b kc"
proof -
  have "find_king_step a kc k c = find_king_step b kc k c" for k c
    by (cases k; cases c) (simp add: assms)
  then have "find_king_step a kc = find_king_step b kc" by (intro ext)
  then show ?thesis by (simp add: find_king_def)
qed

lemma is_in_check_occ:
  assumes "same_occupancy a b"
    and "\<And>r f. a r f \<noteq> b r f \<Longrightarrow> own_piece wt (a r f)"
    and "\<And>r f. (a r f = (if wt then CHR ''K'' else CHR ''k'')) = (b r f = (if wt then CHR ''K'' else CHR ''k''))"
  shows "is_in_check a wt = is_in_check b wt"
  by (simp add: is_in_check_def Let_def find_king_occ [of a _ b, OF assms(3)]
      check_scan_occ [OF assms(1) assms(2)])

subsection \<open>Legality closure\<close>

lemma toupper_P_cases: "toupper c = CHR ''P'' \<Longrightarrow> c = CHR ''P'' \<or> c = CHR ''p''"
  by (simp add: toupper_def lower_letters_def upper_letters_def split: if_splits)

lemma queen_letters:
  "is_white (CHR ''Q'')" "\<not> is_black (CHR ''Q'')" "is_black (CHR ''q'')" "\<not> is_white (CHR ''q'')"
  by (simp_all add: is_white_def is_black_def isupper_def islower_def
        upper_letters_def lower_letters_def)

lemma promo_letters_plain:
  assumes "c \<in> {CHR ''Q'', CHR ''R'', CHR ''B'', CHR ''N''}"
  shows "c \<noteq> CHR ''.''" "c \<noteq> CHR ''K''" "tolower c \<noteq> CHR ''.''" "tolower c \<noteq> CHR ''k''"
  using assms
  by (elim insertE emptyE; simp add: tolower_def upper_letters_def lower_letters_def)+

lemma is_in_check_set_cell:
  assumes "own_piece wt x" "own_piece wt y"
    and "x \<noteq> (if wt then CHR ''K'' else CHR ''k'')" "y \<noteq> (if wt then CHR ''K'' else CHR ''k'')"
    and "is_white x = is_white y" "is_black x = is_black y"
  shows "is_in_check (set_cell bd r f x) wt = is_in_check (set_cell bd r f y) wt"
proof (rule is_in_check_occ)
  from assms show "same_occupancy (set_cell bd r f x) (set_cell bd r f y)"
    by (simp add: same_occupancy_def set_cell_def own_piece_def)
next
  fix r' f'
  assume "set_cell bd r f x r' f' \<noteq> set_cell bd r f y r' f'"
  then have "set_cell bd r f x r' f' = x"
    by (simp add: set_cell_def split: if_splits)
  with assms(1) show "own_piece wt (set_cell bd r f x r' f')" by simp
next
  fix r' f'
  from assms(3,4)
  show "(set_cell bd r f x r' f' = (if wt then CHR ''K'' else CHR ''k''))
      = (set_cell bd r f y r' f' = (if wt then CHR ''K'' else CHR ''k''))"
    by (cases wt) (auto simp: set_cell_def)
qed

lemma promotion_choice_check:
  assumes own: "own_piece wt (bd (r1 m) (f1 m))"
    and c: "c \<in> {CHR ''Q'', CHR ''R'', CHR ''B'', CHR ''N''}"
    and plain: "promotion m = CHR 0x00"
  shows "is_in_check (apply_move bd (m\<lparr>promotion := c\<rparr>)) wt = is_in_check (apply_move bd m) wt"
proof (cases "toupper (bd (r1 m) (f1 m)) = CHR ''P'' \<and> (r2 m = 0 \<or> r2 m = 7)")
  case False
  then have "apply_move bd (m\<lparr>promotion := c\<rparr>) = apply_move bd m"
    by (auto simp: apply_move_def Let_def)
  then show ?thesis by simp
next
  case True
  let ?mover = "bd (r1 m) (f1 m)"
  let ?bd1 = "set_cell bd (r1 m) (f1 m) (CHR ''.'')"
  let ?x = "if is_black ?mover then tolower c else c"
  let ?y = "if is_white ?mover then CHR ''Q'' else CHR ''q''"
  note pl = promo_letters [OF c] promo_letters_plain [OF c]
  from True have mover: "?mover = CHR ''P'' \<or> ?mover = CHR ''p''"
    by (simp add: toupper_P_cases)
  from pl(1) True have a: "apply_move bd (m\<lparr>promotion := c\<rparr>) = set_cell ?bd1 (r2 m) (f2 m) ?x"
    by (simp add: apply_move_def Let_def)
  from plain True have b: "apply_move bd m = set_cell ?bd1 (r2 m) (f2 m) ?y"
    by (simp add: apply_move_def Let_def)
  have "is_in_check (set_cell ?bd1 (r2 m) (f2 m) ?x) wt = is_in_check (set_cell ?bd1 (r2 m) (f2 m) ?y) wt"
  proof (cases wt)
    case True
    with own mover have "?mover = CHR ''P''"
      by (auto simp: own_piece_def ctype_eval)
    then have xy: "?x = c" "?y = CHR ''Q''" by (simp_all add: ctype_eval)
    show ?thesis
      unfolding xy using True pl
      by (intro is_in_check_set_cell) (simp_all add: own_piece_def queen_letters)
  next
    case False
    with own mover have "?mover = CHR ''p''"
      by (auto simp: own_piece_def ctype_eval)
    then have xy: "?x = tolower c" "?y = CHR ''q''" by (simp_all add: ctype_eval)
    show ?thesis
      unfolding xy using False pl
      by (intro is_in_check_set_cell) (simp_all add: own_piece_def queen_letters)
  qed
  then show ?thesis by (simp only: a b)
qed

text \<open>
  C1. Every move \<open>m\<close> that \<^verbatim>\<open>generate_legal_moves\<close> returns for a board and a side,
  applied to the board with \<^verbatim>\<open>apply_move\<close>, gives a board on which \<^verbatim>\<open>is_in_check\<close> is
  false for that side; and this stays so when the promotion field of \<open>m\<close> (which the
  generator leaves at \<open>'\0'\<close>) is set to any of Q, R, B, N before applying.
\<close>

theorem legality_closure:
  assumes legal: "m \<in> set (generate_legal_moves bd side)"
    and c: "c \<in> {CHR 0x00, CHR ''Q'', CHR ''R'', CHR ''B'', CHR ''N''}"
  shows "\<not> is_in_check (apply_move bd m) side
       \<and> \<not> is_in_check (apply_move bd (m\<lparr>promotion := c\<rparr>)) side"
proof -
  from legal_move_passes [OF legal]
  have pseudo: "m \<in> set (pseudo_legal bd side)" and safe: "\<not> leaves_in_check bd side m"
    by simp_all
  note origin = pseudo_legal_origin [OF pseudo]
  from safe origin(2) have plain: "\<not> is_in_check (apply_move bd m) side"
    by (simp add: leaves_in_check_is_in_check)
  show ?thesis
  proof (cases "c = CHR 0x00")
    case True
    with origin(2) have "m\<lparr>promotion := c\<rparr> = m" by simp
    with plain show ?thesis by simp
  next
    case False
    with c have "c \<in> {CHR ''Q'', CHR ''R'', CHR ''B'', CHR ''N''}" by simp
    from promotion_choice_check [of side bd m c, OF origin(1) this origin(2)] plain
    show ?thesis by simp
  qed
qed

lemma promo_board_black_init:
  "is_in_check (apply_move promo_board ((mk_move 6 7 7 7)\<lparr>promotion := CHR ''N''\<rparr>)) False = False"
  by code_simp

theorem legality_closure_witness:
  "mk_move 6 7 7 7 \<in> set (generate_legal_moves promo_board False)
   \<and> promo_board 6 7 = CHR ''p''
   \<and> \<not> is_in_check (apply_move promo_board (mk_move 6 7 7 7)) False
   \<and> \<not> is_in_check (apply_move promo_board ((mk_move 6 7 7 7)\<lparr>promotion := CHR ''N''\<rparr>)) False"
  using legality_closure [of "mk_move 6 7 7 7" promo_board False "CHR ''N''"]
  by (simp add: promo_board_black promo_board_cells)

subsection \<open>The stores stay inside the buffers\<close>

lemma seq_log_snoc: "seq_log (xs @ [x]) = seq_log xs @ [(int (length xs), x)]"
  by (simp add: seq_log_def)

lemma seq_log_append:
  "seq_log (xs @ ys) = seq_log xs @ shift_log (int (length xs)) (seq_log ys)"
proof (induction ys rule: rev_induct)
  case Nil
  then show ?case by (simp add: seq_log_def shift_log_def)
next
  case (snoc y ys)
  have "seq_log (xs @ ys @ [y]) = seq_log (xs @ ys) @ [(int (length (xs @ ys)), y)]"
    using seq_log_snoc [of "xs @ ys" y] by simp
  with snoc.IH show ?case
    by (simp add: seq_log_snoc shift_log_def)
qed

lemma seq_log_fst: "map fst (seq_log xs) = map int [0..<length xs]"
  by (simp add: seq_log_def)

lemma seq_log_snd: "map snd (seq_log xs) = xs"
  by (simp add: seq_log_def)

lemma emit_w_emit:
  "emit_w max_out (seq_log out, int (length out)) c =
     (seq_log (emit max_out out c), int (length (emit max_out out c)))"
  by (simp add: emit_w_def emit_def seq_log_snoc)

lemma emit_w_fold:
  "foldl (emit_w max_out) (seq_log out, int (length out)) cs =
     (seq_log (foldl (emit max_out) out cs), int (length (foldl (emit max_out) out cs)))"
proof (induction cs arbitrary: out)
  case Nil
  then show ?case by simp
next
  case (Cons c cs)
  show ?case
    by (simp only: foldl_Cons emit_w_emit Cons.IH)
qed

lemma generate_piece_moves_w_log:
  "generate_piece_moves_w bd r f max_out wt =
     (seq_log (generate_piece_moves bd r f max_out wt),
      int (length (generate_piece_moves bd r f max_out wt)))"
  using emit_w_fold [of max_out "[]" "piece_candidates bd r f wt"]
  by (simp add: generate_piece_moves_w_def generate_piece_moves_def seq_log_def)

lemma upto_map_int: "[0 .. int n - 1] = map int [0..<n]"
proof (induction n)
  case 0
  then show ?case by simp
next
  case (Suc n)
  have "[0 .. int (Suc n) - 1] = [0 .. int n - 1] @ [int n]"
    using upto_rec2 [of 0 "int n"] by simp
  with Suc show ?case by simp
qed

lemma pseudo_row_w_log:
  "pseudo_row_w bd wt r fs (seq_log all, int (length all)) =
     (seq_log (pseudo_row bd wt r fs all), int (length (pseudo_row bd wt r fs all)))"
proof (induction fs arbitrary: all)
  case Nil
  then show ?case by simp
next
  case (Cons f fs)
  show ?case
  proof (cases "own_piece wt (bd r f)")
    case False
    then have "pseudo_row_w bd wt r (f # fs) (seq_log all, int (length all)) =
        pseudo_row_w bd wt r fs (seq_log all, int (length all))"
      by (cases wt) (auto simp: own_piece_def Let_def)
    then show ?thesis
      by (simp only: pseudo_row_skip [of wt bd r f fs all, OF False] Cons.IH)
  next
    case True
    let ?ms = "generate_piece_moves bd r f (MAX_MOVES - int (length all)) wt"
    let ?s' = "(seq_log (all @ ?ms), int (length (all @ ?ms)))"
    have s': "(fst (seq_log all, int (length all))
               @ shift_log (snd (seq_log all, int (length all)))
                   (fst (generate_piece_moves_w bd r f
                      (MAX_MOVES - snd (seq_log all, int (length all))) wt)),
              snd (seq_log all, int (length all))
               + snd (generate_piece_moves_w bd r f
                      (MAX_MOVES - snd (seq_log all, int (length all))) wt)) = ?s'"
      by (simp add: generate_piece_moves_w_log seq_log_append)
    from True have w: "pseudo_row_w bd wt r (f # fs) (seq_log all, int (length all)) =
        (if snd ?s' \<ge> MAX_MOVES then ?s' else pseudo_row_w bd wt r fs ?s')"
      unfolding s' [symmetric]
      by (cases wt) (auto simp: own_piece_def Let_def)
    show ?thesis
      unfolding w pseudo_row_own [of wt bd r f fs all, OF True] Let_def
      by (simp only: Cons.IH snd_conv if_distrib [of seq_log] if_distrib [of length]
          if_distrib [of int] split: if_splits) simp
  qed
qed

lemma pseudo_rows_w_fold:
  "foldl (pseudo_rows_w bd wt) (seq_log all, int (length all)) rs =
     (seq_log (foldl (pseudo_rows bd wt) all rs), int (length (foldl (pseudo_rows bd wt) all rs)))"
proof (induction rs arbitrary: all)
  case Nil
  then show ?case by simp
next
  case (Cons r rs)
  have "pseudo_rows_w bd wt (seq_log all, int (length all)) r =
      (seq_log (pseudo_rows bd wt all r), int (length (pseudo_rows bd wt all r)))"
    by (simp add: pseudo_rows_w_def pseudo_rows_def pseudo_row_w_log)
  then show ?case
    by (simp only: foldl_Cons Cons.IH)
qed

lemma pseudo_legal_w_log:
  "pseudo_legal_w bd wt = (seq_log (pseudo_legal bd wt), int (length (pseudo_legal bd wt)))"
  using pseudo_rows_w_fold [of bd wt "[]" idx8]
  by (simp add: pseudo_legal_w_def pseudo_legal_def seq_log_def)

lemma generate_piece_moves_length:
  "0 \<le> max_out \<Longrightarrow> int (length (generate_piece_moves bd r f max_out wt)) \<le> max_out"
  by (simp add: generate_piece_moves_take)

lemma pseudo_row_length:
  "int (length all) \<le> MAX_MOVES \<Longrightarrow> int (length (pseudo_row bd wt r fs all)) \<le> MAX_MOVES"
proof (induction fs arbitrary: all)
  case Nil
  then show ?case by simp
next
  case (Cons f fs)
  show ?case
  proof (cases "own_piece wt (bd r f)")
    case False
    with Cons show ?thesis
      by (simp only: pseudo_row_skip [of wt bd r f fs all, OF False])
  next
    case True
    let ?all' = "all @ generate_piece_moves bd r f (MAX_MOVES - int (length all)) wt"
    from Cons.prems generate_piece_moves_length [of "MAX_MOVES - int (length all)" bd r f wt]
    have "int (length ?all') \<le> MAX_MOVES" by simp
    with Cons.IH [of ?all'] show ?thesis
      by (simp only: pseudo_row_own [of wt bd r f fs all, OF True] Let_def split: if_splits) simp
  qed
qed

lemma pseudo_rows_length:
  "int (length all) \<le> MAX_MOVES \<Longrightarrow>
     int (length (foldl (pseudo_rows bd wt) all rs)) \<le> MAX_MOVES"
proof (induction rs arbitrary: all)
  case Nil
  then show ?case by simp
next
  case (Cons r rs)
  from Cons.prems have "int (length (pseudo_rows bd wt all r)) \<le> MAX_MOVES"
    by (simp add: pseudo_rows_def pseudo_row_length)
  from Cons.IH [OF this] show ?case by (simp only: foldl_Cons)
qed

lemma pseudo_legal_length: "int (length (pseudo_legal bd wt)) \<le> MAX_MOVES"
  using pseudo_rows_length [of "[]" bd wt idx8]
  by (simp add: pseudo_legal_def MAX_MOVES_def)

lemma legal_step_length:
  "int (length out) \<le> MAX_MOVES \<Longrightarrow> int (length (legal_step bd wt out m)) \<le> MAX_MOVES"
  by (simp add: legal_step_def)

lemma legal_fold_length:
  "int (length out) \<le> MAX_MOVES \<Longrightarrow>
     int (length (foldl (legal_step bd wt) out ms)) \<le> MAX_MOVES"
proof (induction ms arbitrary: out)
  case Nil
  then show ?case by simp
next
  case (Cons m ms)
  from Cons.IH [OF legal_step_length [OF Cons.prems, of bd wt m]] show ?case
    by (simp only: foldl_Cons)
qed

lemma generate_legal_moves_length: "int (length (generate_legal_moves bd wt)) \<le> MAX_MOVES"
  using legal_fold_length [of "[]" bd wt "pseudo_legal bd wt"]
  by (simp add: generate_legal_moves_def MAX_MOVES_def)

lemma read_seq_log:
  assumes "i < length xs"
  shows "read_log (seq_log xs) (int i) = Some (xs ! i)"
proof -
  have d: "distinct (map fst (rev (seq_log xs)))"
    by (simp add: rev_map [symmetric] seq_log_fst distinct_map inj_on_def)
  from assms have "(int i, xs ! i) \<in> set (rev (seq_log xs))"
    by (auto simp: seq_log_def set_zip intro!: exI [of _ i])
  with d show ?thesis
    by (simp add: read_log_def)
qed

lemma filter_w_log:
  assumes "k \<le> length all"
  shows "filter_w bd wt (seq_log all) (map int [k..<length all]) (seq_log out, int (length out)) =
     Some (seq_log (foldl (legal_step bd wt) out (drop k all)),
           int (length (foldl (legal_step bd wt) out (drop k all))))"
  using assms
proof (induction "length all - k" arbitrary: k out)
  case 0
  then show ?case by simp
next
  case (Suc n)
  then have k: "k < length all" by simp
  then have idx: "map int [k..<length all] = int k # map int [Suc k..<length all]"
    by (simp add: upt_conv_Cons)
  from k have dr: "drop k all = all ! k # drop (Suc k) all"
    by (simp add: Cons_nth_drop_Suc)
  from Suc have n: "n = length all - Suc k" "Suc k \<le> length all" by simp_all
  note IH = Suc.hyps(1) [OF n]
  show ?case
  proof (cases "leaves_in_check bd wt (all ! k)")
    case True
    then have "legal_step bd wt out (all ! k) = out" by (simp add: legal_step_def)
    with True IH [of out] show ?thesis
      by (simp add: idx dr read_seq_log [OF k])
  next
    case False
    show ?thesis
    proof (cases "int (length out) < MAX_MOVES")
      case True
      with False have "legal_step bd wt out (all ! k) = out @ [all ! k]"
        by (simp add: legal_step_def)
      with True False IH [of "out @ [all ! k]"] show ?thesis
        by (simp add: idx dr read_seq_log [OF k] seq_log_snoc add.commute)
    next
      case full: False
      with False have "legal_step bd wt out (all ! k) = out"
        by (simp add: legal_step_def)
      with full False IH [of out] show ?thesis
        by (simp add: idx dr read_seq_log [OF k])
    qed
  qed
qed

lemma generate_legal_moves_w_log:
  "generate_legal_moves_w bd wt =
     Some (seq_log (pseudo_legal bd wt), seq_log (generate_legal_moves bd wt),
           int (length (generate_legal_moves bd wt)))"
  using filter_w_log [of 0 "pseudo_legal bd wt" bd wt "[]"]
  by (simp add: generate_legal_moves_w_def pseudo_legal_w_log upto_map_int
      generate_legal_moves_def Let_def seq_log_def)

text \<open>
  C7. For a capacity \<open>max_out \<ge> 0\<close>, \<^verbatim>\<open>generate_piece_moves\<close> stores exactly to the
  indices \<open>0, \<dots>, count - 1\<close> of its buffer, in this order and once each, where \<open>count\<close>
  is the value it returns and \<open>0 \<le> count \<le> max_out\<close>; the stored moves are the first
  \<open>max_out\<close> of the moves the piece has, the others are dropped. \<^verbatim>\<open>generate_legal_moves\<close>
  returns a count, every store to its local array \<^verbatim>\<open>all\<close> has an index in
  \<open>0 .. MAX_MOVES - 1\<close>, its stores to \<^verbatim>\<open>out\<close> go to the indices \<open>0, \<dots>, count - 1\<close>,
  and \<open>count \<le> MAX_MOVES\<close>.
\<close>

theorem bounded_buffer:
  assumes "0 \<le> max_out"
  shows "(\<exists>w count. generate_piece_moves_w bd r f max_out white_turn = (w, count)
            \<and> map fst w = [0 .. count - 1] \<and> 0 \<le> count \<and> count \<le> max_out
            \<and> map snd w = generate_piece_moves bd r f max_out white_turn
            \<and> map snd w = take (nat max_out) (piece_candidates bd r f white_turn))
       \<and> (\<exists>w_all w_out count. generate_legal_moves_w bd white_turn = Some (w_all, w_out, count)
            \<and> list_all (\<lambda>im. 0 \<le> fst im \<and> fst im < MAX_MOVES) w_all
            \<and> map fst w_out = [0 .. count - 1] \<and> 0 \<le> count \<and> count \<le> MAX_MOVES
            \<and> map snd w_out = generate_legal_moves bd white_turn)"
proof (intro conjI)
  let ?ms = "generate_piece_moves bd r f max_out white_turn"
  have "map fst (seq_log ?ms) = [0 .. int (length ?ms) - 1]"
    by (simp add: seq_log_fst upto_map_int)
  moreover from assms have "int (length ?ms) \<le> max_out"
    by (rule generate_piece_moves_length)
  ultimately show "\<exists>w count. generate_piece_moves_w bd r f max_out white_turn = (w, count)
      \<and> map fst w = [0 .. count - 1] \<and> 0 \<le> count \<and> count \<le> max_out
      \<and> map snd w = generate_piece_moves bd r f max_out white_turn
      \<and> map snd w = take (nat max_out) (piece_candidates bd r f white_turn)"
    by (simp add: generate_piece_moves_w_log seq_log_snd generate_piece_moves_take)
next
  let ?all = "pseudo_legal bd white_turn"
  let ?out = "generate_legal_moves bd white_turn"
  have "list_all (\<lambda>im. 0 \<le> fst im \<and> fst im < MAX_MOVES) (seq_log ?all)"
    using pseudo_legal_length [of bd white_turn]
    by (auto simp: list_all_iff seq_log_def set_zip)
  moreover have "map fst (seq_log ?out) = [0 .. int (length ?out) - 1]"
    by (simp add: seq_log_fst upto_map_int)
  ultimately show "\<exists>w_all w_out count.
      generate_legal_moves_w bd white_turn = Some (w_all, w_out, count)
      \<and> list_all (\<lambda>im. 0 \<le> fst im \<and> fst im < MAX_MOVES) w_all
      \<and> map fst w_out = [0 .. count - 1] \<and> 0 \<le> count \<and> count \<le> MAX_MOVES
      \<and> map snd w_out = generate_legal_moves bd white_turn"
    using generate_legal_moves_length [of bd white_turn]
    by (simp add: generate_legal_moves_w_log seq_log_snd)
qed

lemma promo_board_king:
  "length (piece_candidates promo_board 7 4 True) = 5"
  "generate_piece_moves_w promo_board 7 4 3 True =
     ([(0, mk_move 7 4 6 3), (1, mk_move 7 4 6 4), (2, mk_move 7 4 6 5)], 3)"
  by code_simp+

theorem bounded_buffer_witness:
  "length (piece_candidates promo_board 7 4 True) = 5
   \<and> snd (generate_piece_moves_w promo_board 7 4 3 True) = 3
   \<and> map fst (fst (generate_piece_moves_w promo_board 7 4 3 True)) = [0 .. 2]
   \<and> (\<exists>w_all w_out count. generate_legal_moves_w promo_board True = Some (w_all, w_out, count)
        \<and> list_all (\<lambda>im. 0 \<le> fst im \<and> fst im < MAX_MOVES) w_all
        \<and> map fst w_out = [0 .. count - 1] \<and> 0 \<le> count \<and> count \<le> MAX_MOVES
        \<and> map snd w_out = generate_legal_moves promo_board True)"
  using bounded_buffer [of 3 promo_board 7 4 True] promo_board_king
  by simp

subsection \<open>Score bounds\<close>

lemma piece_value_bounds: "0 \<le> piece_value p \<and> piece_value p \<le> 20000"
  by (simp add: piece_value_def Let_def)

lemma evaluate_step_bound: "\<bar>evaluate_step bd s c\<bar> \<le> \<bar>s\<bar> + 20000"
proof -
  obtain r f where c: "c = (r, f)" by (cases c)
  from piece_value_bounds [of "bd r f"] show ?thesis
    by (auto simp: c Let_def)
qed

lemma evaluate_fold_bound:
  "\<bar>foldl (evaluate_step bd) s cs\<bar> \<le> \<bar>s\<bar> + 20000 * int (length cs)"
proof (induction cs arbitrary: s)
  case Nil
  then show ?case by simp
next
  case (Cons c cs)
  have "\<bar>foldl (evaluate_step bd) (evaluate_step bd s c) cs\<bar>
      \<le> \<bar>evaluate_step bd s c\<bar> + 20000 * int (length cs)"
    by (rule Cons.IH)
  with evaluate_step_bound [of bd s c] show ?case by simp
qed

lemma length_cells: "length cells = 64"
  by (simp add: cells_def idx8_def)

lemma evaluate_board_bound: "\<bar>evaluate_board bd\<bar> \<le> 1280000"
  using evaluate_fold_bound [of bd 0 cells] by (simp add: evaluate_board_def length_cells)

lemma full_bounds:
  "full_minimax fuel bd depth mx = Some v \<Longrightarrow> \<bar>v\<bar> \<le> 1280000"
  "full_children fuel bd ms depth mx = Some vs \<Longrightarrow>
     (\<forall>x \<in> set vs. \<bar>x\<bar> \<le> 1280000) \<and> length vs = length ms"
proof (induction fuel bd depth mx and fuel bd ms depth mx arbitrary: v and vs
    rule: full_minimax_full_children.induct)
  case (1 bd depth maximizing)
  then show ?case by simp
next
  case (2 fuel bd depth maximizing)
  let ?moves = "generate_legal_moves bd maximizing"
  show ?case
  proof (cases "?moves = [] \<or> depth = 0")
    case True
    with "2.prems" evaluate_board_bound [of bd] show ?thesis
      by (auto simp: Let_def split: if_splits)
  next
    case False
    with "2.prems" obtain vs where vs: "full_children fuel bd ?moves depth maximizing = Some vs"
      and v: "v = (if maximizing then Max (set vs) else Min (set vs))"
      by (auto simp: Let_def split: option.splits)
    from False have ne: "?moves \<noteq> []" and d: "depth \<noteq> 0" by simp_all
    from "2.IH" [OF refl ne d vs] have b: "\<forall>x \<in> set vs. \<bar>x\<bar> \<le> 1280000" and "length vs = length ?moves"
      by simp_all
    with ne have "vs \<noteq> []" by auto
    then have "Max (set vs) \<in> set vs" "Min (set vs) \<in> set vs"
      by (simp_all add: Max_in Min_in)
    with b v show ?thesis by auto
  qed
next
  case (3 fuel bd depth maximizing)
  then show ?case by simp
next
  case (4 fuel bd m ms depth maximizing)
  from "4.prems" obtain x xs where
    x: "full_minimax fuel (apply_move bd m) (depth - 1) (\<not> maximizing) = Some x"
    and xs: "full_children fuel bd ms depth maximizing = Some xs" and vs: "vs = x # xs"
    by (auto split: option.splits)
  from "4.IH"(1) [OF x] "4.IH"(2) [OF x xs] vs show ?case by simp
qed

subsection \<open>Pruning keeps the value\<close>

text \<open>
  \<open>approximates \<alpha> \<beta> v r\<close>: the returned \<open>r\<close> is the true value \<open>v\<close> when it lies inside
  the window, an upper bound of \<open>v\<close> when it is below \<open>\<beta>\<close> and a lower bound when it is
  above \<open>\<alpha>\<close>.
\<close>

lemma max_loop_sound:
  assumes child: "\<And>b d a be mx v. full_minimax k b d mx = Some v \<Longrightarrow> INT_MIN \<le> a \<Longrightarrow>
      a < be \<Longrightarrow> be \<le> INT_MAX \<Longrightarrow>
      \<exists>r. minimax k b d a be mx = Some r \<and> (r < be \<longrightarrow> v \<le> r) \<and> (a < r \<longrightarrow> r \<le> v)"
    and vs: "full_children k bd ms depth True = Some vs"
    and w: "M \<le> a" "INT_MIN \<le> a" "a < \<beta>" "\<beta> \<le> INT_MAX"
  shows "\<exists>r. max_loop k bd ms depth M a \<beta> = Some r \<and> M \<le> r
           \<and> (r < \<beta> \<longrightarrow> (\<forall>v \<in> set vs. v \<le> r))
           \<and> (a < r \<longrightarrow> (\<exists>v \<in> set vs. r \<le> v))"
  using vs w
proof (induction ms arbitrary: vs M a)
  case Nil
  then show ?case by simp
next
  case (Cons m ms)
  from Cons.prems(1) obtain v1 vs' where
    v1: "full_minimax k (apply_move bd m) (depth - 1) False = Some v1"
    and vs': "full_children k bd ms depth True = Some vs'" and vs: "vs = v1 # vs'"
    by (auto split: option.splits)
  from child [OF v1 Cons.prems(3,4,5)] obtain r1 where
    r1: "minimax k (apply_move bd m) (depth - 1) a \<beta> False = Some r1"
    and up: "r1 < \<beta> \<longrightarrow> v1 \<le> r1" and lo: "a < r1 \<longrightarrow> r1 \<le> v1"
    by blast
  let ?M' = "if r1 > M then r1 else M"
  let ?a' = "if r1 > a then r1 else a"
  show ?case
  proof (cases "\<beta> \<le> ?a'")
    case True
    with r1 have res: "max_loop k bd (m # ms) depth M a \<beta> = Some ?M'"
      by (simp add: Let_def)
    from True Cons.prems(2,4) have "?M' = r1" "\<beta> \<le> r1" "a < r1"
      by (auto split: if_splits)
    with lo Cons.prems(2) show ?thesis
      unfolding res vs by auto
  next
    case False
    with r1 have res: "max_loop k bd (m # ms) depth M a \<beta> = max_loop k bd ms depth ?M' ?a' \<beta>"
      by (simp add: Let_def)
    from False have a'b: "?a' < \<beta>" by simp
    from Cons.prems(2) have Ma: "?M' \<le> ?a'" by auto
    from Cons.prems(3) have ia: "INT_MIN \<le> ?a'" by auto
    from Cons.IH [OF vs' Ma ia a'b Cons.prems(5)] obtain r where
      r: "max_loop k bd ms depth ?M' ?a' \<beta> = Some r" and Mr: "?M' \<le> r"
      and rup: "r < \<beta> \<longrightarrow> (\<forall>v \<in> set vs'. v \<le> r)"
      and rlo: "?a' < r \<longrightarrow> (\<exists>v \<in> set vs'. r \<le> v)"
      by blast
    from a'b have "r1 < \<beta>" by (auto split: if_splits)
    with up have v1r1: "v1 \<le> r1" by simp
    have "M \<le> r" using Mr by (auto split: if_splits)
    moreover have "r < \<beta> \<longrightarrow> (\<forall>v \<in> set vs. v \<le> r)"
      using rup v1r1 Mr unfolding vs by (auto split: if_splits)
    moreover have "a < r \<longrightarrow> (\<exists>v \<in> set vs. r \<le> v)"
    proof
      assume ar: "a < r"
      show "\<exists>v \<in> set vs. r \<le> v"
      proof (cases "?a' < r")
        case True
        with rlo show ?thesis unfolding vs by auto
      next
        case False
        with ar have "r \<le> r1" "a < r1" by (auto split: if_splits)
        with lo show ?thesis unfolding vs by auto
      qed
    qed
    ultimately show ?thesis unfolding res r by simp
  qed
qed

lemma min_loop_sound:
  assumes child: "\<And>b d a be mx v. full_minimax k b d mx = Some v \<Longrightarrow> INT_MIN \<le> a \<Longrightarrow>
      a < be \<Longrightarrow> be \<le> INT_MAX \<Longrightarrow>
      \<exists>r. minimax k b d a be mx = Some r \<and> (r < be \<longrightarrow> v \<le> r) \<and> (a < r \<longrightarrow> r \<le> v)"
    and vs: "full_children k bd ms depth False = Some vs"
    and w: "b \<le> M" "INT_MIN \<le> \<alpha>" "\<alpha> < b" "b \<le> INT_MAX"
  shows "\<exists>r. min_loop k bd ms depth M \<alpha> b = Some r \<and> r \<le> M
           \<and> (\<alpha> < r \<longrightarrow> (\<forall>v \<in> set vs. r \<le> v))
           \<and> (r < b \<longrightarrow> (\<exists>v \<in> set vs. v \<le> r))"
  using vs w
proof (induction ms arbitrary: vs M b)
  case Nil
  then show ?case by simp
next
  case (Cons m ms)
  from Cons.prems(1) obtain v1 vs' where
    v1: "full_minimax k (apply_move bd m) (depth - 1) True = Some v1"
    and vs': "full_children k bd ms depth False = Some vs'" and vs: "vs = v1 # vs'"
    by (auto split: option.splits)
  from child [OF v1 Cons.prems(3,4,5)] obtain r1 where
    r1: "minimax k (apply_move bd m) (depth - 1) \<alpha> b True = Some r1"
    and up: "r1 < b \<longrightarrow> v1 \<le> r1" and lo: "\<alpha> < r1 \<longrightarrow> r1 \<le> v1"
    by blast
  let ?M' = "if r1 < M then r1 else M"
  let ?b' = "if r1 < b then r1 else b"
  show ?case
  proof (cases "?b' \<le> \<alpha>")
    case True
    with r1 have res: "min_loop k bd (m # ms) depth M \<alpha> b = Some ?M'"
      by (simp add: Let_def)
    from True Cons.prems(2,4) have "?M' = r1" "r1 \<le> \<alpha>" "r1 < b"
      by (auto split: if_splits)
    with up Cons.prems(2) show ?thesis
      unfolding res vs by auto
  next
    case False
    with r1 have res: "min_loop k bd (m # ms) depth M \<alpha> b = min_loop k bd ms depth ?M' \<alpha> ?b'"
      by (simp add: Let_def)
    from False have ab': "\<alpha> < ?b'" by simp
    from Cons.prems(2) have bM: "?b' \<le> ?M'" by auto
    from Cons.prems(5) have ib: "?b' \<le> INT_MAX" by auto
    from Cons.IH [OF vs' bM Cons.prems(3) ab' ib] obtain r where
      r: "min_loop k bd ms depth ?M' \<alpha> ?b' = Some r" and rM: "r \<le> ?M'"
      and rlo: "\<alpha> < r \<longrightarrow> (\<forall>v \<in> set vs'. r \<le> v)"
      and rup: "r < ?b' \<longrightarrow> (\<exists>v \<in> set vs'. v \<le> r)"
      by blast
    from ab' have "\<alpha> < r1" by (auto split: if_splits)
    with lo have r1v1: "r1 \<le> v1" by simp
    have "r \<le> M" using rM by (auto split: if_splits)
    moreover have "\<alpha> < r \<longrightarrow> (\<forall>v \<in> set vs. r \<le> v)"
      using rlo r1v1 rM unfolding vs by (auto split: if_splits)
    moreover have "r < b \<longrightarrow> (\<exists>v \<in> set vs. v \<le> r)"
    proof
      assume rb: "r < b"
      show "\<exists>v \<in> set vs. v \<le> r"
      proof (cases "r < ?b'")
        case True
        with rup show ?thesis unfolding vs by auto
      next
        case False
        with rb have "r1 \<le> r" "r1 < b" by (auto split: if_splits)
        with up show ?thesis unfolding vs by auto
      qed
    qed
    ultimately show ?thesis unfolding res r by simp
  qed
qed

lemma minimax_sound:
  "full_minimax fuel bd depth mx = Some v \<Longrightarrow> INT_MIN \<le> \<alpha> \<Longrightarrow> \<alpha> < \<beta> \<Longrightarrow> \<beta> \<le> INT_MAX \<Longrightarrow>
     \<exists>r. minimax fuel bd depth \<alpha> \<beta> mx = Some r \<and> (r < \<beta> \<longrightarrow> v \<le> r) \<and> (\<alpha> < r \<longrightarrow> r \<le> v)"
proof (induction fuel arbitrary: bd depth mx v \<alpha> \<beta>)
  case 0
  then show ?case by simp
next
  case (Suc k)
  let ?moves = "generate_legal_moves bd mx"
  show ?case
  proof (cases "?moves = [] \<or> depth = 0")
    case True
    with Suc.prems(1) have "minimax (Suc k) bd depth \<alpha> \<beta> mx = Some v"
      by (auto simp: Let_def split: if_splits)
    then show ?thesis by simp
  next
    case False
    with Suc.prems(1) obtain vs where vs: "full_children k bd ?moves depth mx = Some vs"
      and v: "v = (if mx then Max (set vs) else Min (set vs))"
      by (auto simp: Let_def split: option.splits)
    from full_bounds(2) [OF vs] False have ne: "vs \<noteq> []" by auto
    have fin: "finite (set vs)" by simp
    show ?thesis
    proof (cases mx)
      case True
      from vs True have vs': "full_children k bd ?moves depth True = Some vs" by simp
      from max_loop_sound [of k bd ?moves depth vs INT_MIN \<alpha> \<beta>, OF Suc.IH vs' Suc.prems(2)
          Suc.prems(2) Suc.prems(3) Suc.prems(4)]
      obtain r where r: "max_loop k bd ?moves depth INT_MIN \<alpha> \<beta> = Some r"
        and up: "r < \<beta> \<longrightarrow> (\<forall>x \<in> set vs. x \<le> r)"
        and lo: "\<alpha> < r \<longrightarrow> (\<exists>x \<in> set vs. r \<le> x)"
        by blast
      from False True r have res: "minimax (Suc k) bd depth \<alpha> \<beta> mx = Some r"
        by (simp add: Let_def)
      from v True have vmax: "v = Max (set vs)" by simp
      have "r < \<beta> \<longrightarrow> v \<le> r"
        using up ne unfolding vmax by (simp add: Max_le_iff)
      moreover have "\<alpha> < r \<longrightarrow> r \<le> v"
        using lo ne unfolding vmax by (auto simp: Max_ge_iff)
      ultimately show ?thesis unfolding res by simp
    next
      case mn: False
      from vs mn have vs': "full_children k bd ?moves depth False = Some vs" by simp
      from min_loop_sound [of k bd ?moves depth vs \<beta> INT_MAX \<alpha>, OF Suc.IH vs' Suc.prems(4)
          Suc.prems(2) Suc.prems(3) Suc.prems(4)]
      obtain r where r: "min_loop k bd ?moves depth INT_MAX \<alpha> \<beta> = Some r"
        and lo: "\<alpha> < r \<longrightarrow> (\<forall>x \<in> set vs. r \<le> x)"
        and up: "r < \<beta> \<longrightarrow> (\<exists>x \<in> set vs. x \<le> r)"
        by blast
      from False mn r have res: "minimax (Suc k) bd depth \<alpha> \<beta> mx = Some r"
        by (simp add: Let_def)
      from v mn have vmin: "v = Min (set vs)" by simp
      have "r < \<beta> \<longrightarrow> v \<le> r"
        using up ne unfolding vmin by (auto simp: Min_le_iff)
      moreover have "\<alpha> < r \<longrightarrow> r \<le> v"
        using lo ne unfolding vmin by (simp add: Min_ge_iff)
      ultimately show ?thesis unfolding res by simp
    qed
  qed
qed

lemma full_minimax_total:
  "0 \<le> depth \<Longrightarrow> nat depth < fuel \<Longrightarrow> \<exists>v. full_minimax fuel bd depth mx = Some v"
  "0 < depth \<Longrightarrow> nat depth \<le> fuel \<Longrightarrow> \<exists>vs. full_children fuel bd ms depth mx = Some vs"
proof (induction fuel bd depth mx and fuel bd ms depth mx
    rule: full_minimax_full_children.induct)
  case (1 bd depth maximizing)
  then show ?case by simp
next
  case (2 fuel bd depth maximizing)
  let ?moves = "generate_legal_moves bd maximizing"
  show ?case
  proof (cases "?moves = [] \<or> depth = 0")
    case True
    then show ?thesis by (auto simp: Let_def)
  next
    case False
    then have ne: "?moves \<noteq> []" and d: "depth \<noteq> 0" by simp_all
    from d "2.prems" have "0 < depth" "nat depth \<le> fuel" by simp_all
    from "2.IH" [OF refl ne d this] obtain vs where
      "full_children fuel bd ?moves depth maximizing = Some vs" by blast
    with False show ?thesis by (simp add: Let_def)
  qed
next
  case (3 fuel bd depth maximizing)
  then show ?case by simp
next
  case (4 fuel bd m ms depth maximizing)
  from "4.prems" have "0 \<le> depth - 1" "nat (depth - 1) < fuel" by simp_all
  from "4.IH"(1) [OF this] obtain x where
    x: "full_minimax fuel (apply_move bd m) (depth - 1) (\<not> maximizing) = Some x" by blast
  from "4.IH"(2) [OF x "4.prems"] obtain xs where
    "full_children fuel bd ms depth maximizing = Some xs" by blast
  with x show ?case by simp
qed

text \<open>
  C2. Called with the window of \<^verbatim>\<open>choose_ai_move\<close>, \<open>alpha = INT_MIN/2\<close> and
  \<open>beta = INT_MAX/2\<close>, \<^verbatim>\<open>minimax\<close> returns the value of the unpruned search of the same
  board, depth and side: whenever the unpruned search comes back with a value, the
  pruned one comes back with the same value; and for every depth \<open>\<ge> 0\<close> the unpruned
  search does come back (within \<open>depth + 1\<close> nested calls).
\<close>

theorem alpha_beta_equivalence:
  "(full_minimax fuel bd depth maximizing = Some v \<longrightarrow>
      minimax fuel bd depth (INT_MIN div 2) (INT_MAX div 2) maximizing = Some v)
   \<and> (0 \<le> depth \<and> nat depth < fuel \<longrightarrow>
        (\<exists>v. full_minimax fuel bd depth maximizing = Some v))"
proof (intro conjI impI)
  assume full: "full_minimax fuel bd depth maximizing = Some v"
  have w: "INT_MIN \<le> INT_MIN div 2" "INT_MIN div 2 < INT_MAX div 2" "INT_MAX div 2 \<le> INT_MAX"
    by (simp_all add: INT_MIN_def INT_MAX_def)
  from minimax_sound [OF full w] obtain r where
    r: "minimax fuel bd depth (INT_MIN div 2) (INT_MAX div 2) maximizing = Some r"
    and up: "r < INT_MAX div 2 \<longrightarrow> v \<le> r" and lo: "INT_MIN div 2 < r \<longrightarrow> r \<le> v"
    by blast
  from full_bounds(1) [OF full] have "INT_MIN div 2 < v" "v < INT_MAX div 2"
    by (simp_all add: INT_MIN_def INT_MAX_def)
  with up lo have "r = v" by linarith
  with r show "minimax fuel bd depth (INT_MIN div 2) (INT_MAX div 2) maximizing = Some v"
    by simp
next
  assume "0 \<le> depth \<and> nat depth < fuel"
  then show "\<exists>v. full_minimax fuel bd depth maximizing = Some v"
    by (simp add: full_minimax_total(1))
qed

lemma kings_board_full: "full_minimax 3 kings_board 2 True = Some 0"
  by code_simp

theorem alpha_beta_equivalence_witness:
  "full_minimax 3 kings_board 2 True = Some 0
   \<and> minimax 3 kings_board 2 (INT_MIN div 2) (INT_MAX div 2) True = Some 0"
  using alpha_beta_equivalence [of 3 kings_board 2 True 0] kings_board_full
  by simp

subsection \<open>Scores and termination of the pruned search\<close>

lemma minimax_bounds:
  "minimax fuel bd depth \<alpha> \<beta> mx = Some r \<Longrightarrow> \<bar>r\<bar> \<le> 1280000"
  "max_loop fuel bd ms depth M \<alpha> \<beta> = Some r \<Longrightarrow>
     M \<le> r \<and> r \<le> max M 1280000 \<and> (ms \<noteq> [] \<longrightarrow> - 1280000 \<le> r)"
  "min_loop fuel bd ms depth M \<alpha> \<beta> = Some r \<Longrightarrow>
     r \<le> M \<and> min M (- 1280000) \<le> r \<and> (ms \<noteq> [] \<longrightarrow> r \<le> 1280000)"
proof (induction fuel bd depth \<alpha> \<beta> mx and fuel bd ms depth M \<alpha> \<beta> and fuel bd ms depth M \<alpha> \<beta>
    arbitrary: r and r and r rule: minimax_max_loop_min_loop.induct)
  case (1 bd depth alpha beta maximizingPlayer)
  then show ?case by simp
next
  case (2 fuel bd depth alpha beta maximizingPlayer)
  let ?moves = "generate_legal_moves bd maximizingPlayer"
  show ?case
  proof (cases "depth = 0 \<or> ?moves = []")
    case True
    with "2.prems" evaluate_board_bound [of bd] show ?thesis
      by (auto simp: Let_def split: if_splits)
  next
    case False
    then have ne: "?moves \<noteq> []" by simp
    show ?thesis
    proof (cases maximizingPlayer)
      case True
      with False "2.prems" have "max_loop fuel bd ?moves depth INT_MIN alpha beta = Some r"
        by (simp add: Let_def)
      from "2.IH"(1) [OF refl False True this] ne show ?thesis
        by (auto simp: INT_MIN_def)
    next
      case mn: False
      with False "2.prems" have "min_loop fuel bd ?moves depth INT_MAX alpha beta = Some r"
        by (simp add: Let_def)
      from "2.IH"(2) [OF refl False mn this] ne show ?thesis
        by (auto simp: INT_MAX_def)
    qed
  qed
next
  case (3 fuel bd depth maxEval alpha beta)
  then show ?case by simp
next
  case (4 fuel bd m ms depth maxEval alpha beta)
  from "4.prems" obtain e where
    e: "minimax fuel (apply_move bd m) (depth - 1) alpha beta False = Some e"
    by (auto split: option.splits)
  from "4.IH"(1) [OF e] have eb: "\<bar>e\<bar> \<le> 1280000" .
  let ?M' = "if e > maxEval then e else maxEval"
  let ?a' = "if e > alpha then e else alpha"
  show ?case
  proof (cases "beta \<le> ?a'")
    case True
    with e "4.prems" have "r = ?M'" by (simp add: Let_def)
    with eb show ?thesis by auto
  next
    case False
    with e "4.prems" have "max_loop fuel bd ms depth ?M' ?a' beta = Some r"
      by (simp add: Let_def)
    from "4.IH"(2) [OF e refl refl False this] eb show ?thesis
      by (auto split: if_splits)
  qed
next
  case (5 fuel bd depth minEval alpha beta)
  then show ?case by simp
next
  case (6 fuel bd m ms depth minEval alpha beta)
  from "6.prems" obtain e where
    e: "minimax fuel (apply_move bd m) (depth - 1) alpha beta True = Some e"
    by (auto split: option.splits)
  from "6.IH"(1) [OF e] have eb: "\<bar>e\<bar> \<le> 1280000" .
  let ?M' = "if e < minEval then e else minEval"
  let ?b' = "if e < beta then e else beta"
  show ?case
  proof (cases "?b' \<le> alpha")
    case True
    with e "6.prems" have "r = ?M'" by (simp add: Let_def)
    with eb show ?thesis by auto
  next
    case False
    with e "6.prems" have "min_loop fuel bd ms depth ?M' alpha ?b' = Some r"
      by (simp add: Let_def)
    from "6.IH"(2) [OF e refl refl False this] eb show ?thesis
      by (auto split: if_splits)
  qed
qed

lemma minimax_total:
  "0 \<le> depth \<Longrightarrow> nat depth < fuel \<Longrightarrow> \<exists>r. minimax fuel bd depth \<alpha> \<beta> mx = Some r"
  "0 < depth \<Longrightarrow> nat depth \<le> fuel \<Longrightarrow> \<exists>r. max_loop fuel bd ms depth M \<alpha> \<beta> = Some r"
  "0 < depth \<Longrightarrow> nat depth \<le> fuel \<Longrightarrow> \<exists>r. min_loop fuel bd ms depth M \<alpha> \<beta> = Some r"
proof (induction fuel bd depth \<alpha> \<beta> mx and fuel bd ms depth M \<alpha> \<beta> and fuel bd ms depth M \<alpha> \<beta>
    rule: minimax_max_loop_min_loop.induct)
  case (1 bd depth alpha beta maximizingPlayer)
  then show ?case by simp
next
  case (2 fuel bd depth alpha beta maximizingPlayer)
  let ?moves = "generate_legal_moves bd maximizingPlayer"
  show ?case
  proof (cases "depth = 0 \<or> ?moves = []")
    case True
    then show ?thesis by (auto simp: Let_def)
  next
    case False
    with "2.prems" have d: "0 < depth" "nat depth \<le> fuel" by simp_all
    show ?thesis
    proof (cases maximizingPlayer)
      case True
      from "2.IH"(1) [OF refl False True d] False True show ?thesis
        by (simp add: Let_def)
    next
      case mn: False
      from "2.IH"(2) [OF refl False mn d] False mn show ?thesis
        by (simp add: Let_def)
    qed
  qed
next
  case (3 fuel bd depth maxEval alpha beta)
  then show ?case by simp
next
  case (4 fuel bd m ms depth maxEval alpha beta)
  from "4.prems" have "0 \<le> depth - 1" "nat (depth - 1) < fuel" by simp_all
  from "4.IH"(1) [OF this] obtain e where
    e: "minimax fuel (apply_move bd m) (depth - 1) alpha beta False = Some e" by blast
  let ?M' = "if e > maxEval then e else maxEval"
  let ?a' = "if e > alpha then e else alpha"
  show ?case
  proof (cases "beta \<le> ?a'")
    case True
    with e show ?thesis by (simp add: Let_def)
  next
    case False
    from "4.IH"(2) [OF e refl refl False "4.prems"] e False show ?thesis
      by (simp add: Let_def)
  qed
next
  case (5 fuel bd depth minEval alpha beta)
  then show ?case by simp
next
  case (6 fuel bd m ms depth minEval alpha beta)
  from "6.prems" have "0 \<le> depth - 1" "nat (depth - 1) < fuel" by simp_all
  from "6.IH"(1) [OF this] obtain e where
    e: "minimax fuel (apply_move bd m) (depth - 1) alpha beta True = Some e" by blast
  let ?M' = "if e < minEval then e else minEval"
  let ?b' = "if e < beta then e else beta"
  show ?case
  proof (cases "?b' \<le> alpha")
    case True
    with e show ?thesis by (simp add: Let_def)
  next
    case False
    from "6.IH"(2) [OF e refl refl False "6.prems"] e False show ?thesis
      by (simp add: Let_def)
  qed
qed

subsection \<open>The root loop\<close>

lemma choose_loop_white:
  assumes "map (\<lambda>m. minimax fuel (apply_move bd m) (d - 1) (INT_MIN div 2) (INT_MAX div 2) False) ms
           = map Some ss"
  shows "((\<forall>j < length ss. ss ! j \<le> bs) \<and> choose_loop fuel d bd True ms bs b = Some b)
       \<or> (\<exists>i < length ss. choose_loop fuel d bd True ms bs b = Some (ms ! i) \<and> bs < ss ! i
            \<and> (\<forall>j < length ss. ss ! j \<le> ss ! i) \<and> (\<forall>j < i. ss ! j < ss ! i))"
  using assms
proof (induction ms arbitrary: ss bs b)
  case Nil
  then show ?case by simp
next
  case (Cons m ms)
  from Cons.prems obtain s ss' where ss: "ss = s # ss'"
    and s: "minimax fuel (apply_move bd m) (d - 1) (INT_MIN div 2) (INT_MAX div 2) False = Some s"
    and rest: "map (\<lambda>m. minimax fuel (apply_move bd m) (d - 1) (INT_MIN div 2) (INT_MAX div 2) False) ms
               = map Some ss'"
    by (cases ss) auto
  show ?case
  proof (cases "s > bs")
    case True
    with s have step: "choose_loop fuel d bd True (m # ms) bs b = choose_loop fuel d bd True ms s m"
      by simp
    from Cons.IH [OF rest, of s m] show ?thesis
    proof (elim disjE conjE exE)
      assume all: "\<forall>j < length ss'. ss' ! j \<le> s" and res: "choose_loop fuel d bd True ms s m = Some m"
      have "\<forall>j < length ss. ss ! j \<le> ss ! 0"
        using all unfolding ss by (auto simp: nth_Cons split: nat.splits)
      with True res show ?thesis
        unfolding step ss by (intro disjI2 exI [of _ 0]) simp
    next
      fix i
      assume i: "i < length ss'" and res: "choose_loop fuel d bd True ms s m = Some (ms ! i)"
        and gt: "s < ss' ! i" and mx: "\<forall>j < length ss'. ss' ! j \<le> ss' ! i"
        and first: "\<forall>j < i. ss' ! j < ss' ! i"
      have "\<forall>j < length ss. ss ! j \<le> ss ! Suc i"
        using mx gt unfolding ss by (auto simp: nth_Cons split: nat.splits)
      moreover have "\<forall>j < Suc i. ss ! j < ss ! Suc i"
        using first gt unfolding ss by (auto simp: nth_Cons split: nat.splits)
      moreover have "bs < ss ! Suc i" using True gt unfolding ss by simp
      ultimately show ?thesis
        using i res unfolding step ss by (intro disjI2 exI [of _ "Suc i"]) simp
    qed
  next
    case False
    with s have step: "choose_loop fuel d bd True (m # ms) bs b = choose_loop fuel d bd True ms bs b"
      by simp
    from Cons.IH [OF rest, of bs b] show ?thesis
    proof (elim disjE conjE exE)
      assume all: "\<forall>j < length ss'. ss' ! j \<le> bs" and res: "choose_loop fuel d bd True ms bs b = Some b"
      have "\<forall>j < length ss. ss ! j \<le> bs"
        using all False unfolding ss by (auto simp: nth_Cons split: nat.splits)
      with res show ?thesis unfolding step by simp
    next
      fix i
      assume i: "i < length ss'" and res: "choose_loop fuel d bd True ms bs b = Some (ms ! i)"
        and gt: "bs < ss' ! i" and mx: "\<forall>j < length ss'. ss' ! j \<le> ss' ! i"
        and first: "\<forall>j < i. ss' ! j < ss' ! i"
      have "\<forall>j < length ss. ss ! j \<le> ss ! Suc i"
        using mx gt False unfolding ss by (auto simp: nth_Cons split: nat.splits)
      moreover have "\<forall>j < Suc i. ss ! j < ss ! Suc i"
        using first gt False unfolding ss by (auto simp: nth_Cons split: nat.splits)
      moreover have "bs < ss ! Suc i" using gt unfolding ss by simp
      ultimately show ?thesis
        using i res unfolding step ss by (intro disjI2 exI [of _ "Suc i"]) simp
    qed
  qed
qed

lemma choose_loop_black:
  assumes "map (\<lambda>m. minimax fuel (apply_move bd m) (d - 1) (INT_MIN div 2) (INT_MAX div 2) True) ms
           = map Some ss"
  shows "((\<forall>j < length ss. bs \<le> ss ! j) \<and> choose_loop fuel d bd False ms bs b = Some b)
       \<or> (\<exists>i < length ss. choose_loop fuel d bd False ms bs b = Some (ms ! i) \<and> ss ! i < bs
            \<and> (\<forall>j < length ss. ss ! i \<le> ss ! j) \<and> (\<forall>j < i. ss ! i < ss ! j))"
  using assms
proof (induction ms arbitrary: ss bs b)
  case Nil
  then show ?case by simp
next
  case (Cons m ms)
  from Cons.prems obtain s ss' where ss: "ss = s # ss'"
    and s: "minimax fuel (apply_move bd m) (d - 1) (INT_MIN div 2) (INT_MAX div 2) True = Some s"
    and rest: "map (\<lambda>m. minimax fuel (apply_move bd m) (d - 1) (INT_MIN div 2) (INT_MAX div 2) True) ms
               = map Some ss'"
    by (cases ss) auto
  show ?case
  proof (cases "s < bs")
    case True
    with s have step: "choose_loop fuel d bd False (m # ms) bs b = choose_loop fuel d bd False ms s m"
      by simp
    from Cons.IH [OF rest, of s m] show ?thesis
    proof (elim disjE conjE exE)
      assume all: "\<forall>j < length ss'. s \<le> ss' ! j" and res: "choose_loop fuel d bd False ms s m = Some m"
      have "\<forall>j < length ss. ss ! 0 \<le> ss ! j"
        using all unfolding ss by (auto simp: nth_Cons split: nat.splits)
      with True res show ?thesis
        unfolding step ss by (intro disjI2 exI [of _ 0]) simp
    next
      fix i
      assume i: "i < length ss'" and res: "choose_loop fuel d bd False ms s m = Some (ms ! i)"
        and gt: "ss' ! i < s" and mx: "\<forall>j < length ss'. ss' ! i \<le> ss' ! j"
        and first: "\<forall>j < i. ss' ! i < ss' ! j"
      have "\<forall>j < length ss. ss ! Suc i \<le> ss ! j"
        using mx gt unfolding ss by (auto simp: nth_Cons split: nat.splits)
      moreover have "\<forall>j < Suc i. ss ! Suc i < ss ! j"
        using first gt unfolding ss by (auto simp: nth_Cons split: nat.splits)
      moreover have "ss ! Suc i < bs" using True gt unfolding ss by simp
      ultimately show ?thesis
        using i res unfolding step ss by (intro disjI2 exI [of _ "Suc i"]) simp
    qed
  next
    case False
    with s have step: "choose_loop fuel d bd False (m # ms) bs b = choose_loop fuel d bd False ms bs b"
      by simp
    from Cons.IH [OF rest, of bs b] show ?thesis
    proof (elim disjE conjE exE)
      assume all: "\<forall>j < length ss'. bs \<le> ss' ! j" and res: "choose_loop fuel d bd False ms bs b = Some b"
      have "\<forall>j < length ss. bs \<le> ss ! j"
        using all False unfolding ss by (auto simp: nth_Cons split: nat.splits)
      with res show ?thesis unfolding step by simp
    next
      fix i
      assume i: "i < length ss'" and res: "choose_loop fuel d bd False ms bs b = Some (ms ! i)"
        and gt: "ss' ! i < bs" and mx: "\<forall>j < length ss'. ss' ! i \<le> ss' ! j"
        and first: "\<forall>j < i. ss' ! i < ss' ! j"
      have "\<forall>j < length ss. ss ! Suc i \<le> ss ! j"
        using mx gt False unfolding ss by (auto simp: nth_Cons split: nat.splits)
      moreover have "\<forall>j < Suc i. ss ! Suc i < ss ! j"
        using first gt False unfolding ss by (auto simp: nth_Cons split: nat.splits)
      moreover have "ss ! Suc i < bs" using gt unfolding ss by simp
      ultimately show ?thesis
        using i res unfolding step ss by (intro disjI2 exI [of _ "Suc i"]) simp
    qed
  qed
qed

text \<open>
  C4. If \<^verbatim>\<open>generate_legal_moves\<close> returns no move, \<^verbatim>\<open>choose_ai_move\<close> returns the
  sentinel move with origin \<open>(0,0)\<close>, destination \<open>(0,0)\<close> and no promotion. Otherwise,
  when the searches of the positions after the legal moves, each run with depth
  \<open>AI_DEPTH - 1\<close>, the window \<open>(INT_MIN/2, INT_MAX/2)\<close> and the opponent to move, return the
  scores \<open>ss\<close>, it returns the legal move at the first index whose score is the maximum
  of \<open>ss\<close> for White and the minimum for Black. For \<open>AI_DEPTH \<ge> 1\<close> all these searches
  return.
\<close>

theorem move_selector:
  "(generate_legal_moves bd white_turn = [] \<longrightarrow>
      choose_ai_move fuel AI_DEPTH bd white_turn
        = Some \<lparr>r1 = 0, f1 = 0, r2 = 0, f2 = 0, promotion = CHR 0x00\<rparr>)
   \<and> (generate_legal_moves bd white_turn \<noteq> [] \<and>
        map (\<lambda>m. minimax fuel (apply_move bd m) (AI_DEPTH - 1) (INT_MIN div 2) (INT_MAX div 2)
                    (\<not> white_turn))
          (generate_legal_moves bd white_turn) = map Some ss \<longrightarrow>
        (\<exists>i < length ss.
            choose_ai_move fuel AI_DEPTH bd white_turn = Some (generate_legal_moves bd white_turn ! i)
          \<and> (\<forall>j < length ss. if white_turn then ss ! j \<le> ss ! i else ss ! i \<le> ss ! j)
          \<and> (\<forall>j < i. if white_turn then ss ! j < ss ! i else ss ! i < ss ! j)))
   \<and> (1 \<le> AI_DEPTH \<and> nat (AI_DEPTH - 1) < fuel \<longrightarrow>
        (\<exists>ss. map (\<lambda>m. minimax fuel (apply_move bd m) (AI_DEPTH - 1) (INT_MIN div 2)
                          (INT_MAX div 2) (\<not> white_turn))
                (generate_legal_moves bd white_turn) = map Some ss))"
proof (intro conjI impI)
  assume "generate_legal_moves bd white_turn = []"
  then show "choose_ai_move fuel AI_DEPTH bd white_turn
      = Some \<lparr>r1 = 0, f1 = 0, r2 = 0, f2 = 0, promotion = CHR 0x00\<rparr>"
    by (simp add: choose_ai_move_def mk_move_def)
next
  let ?moves = "generate_legal_moves bd white_turn"
  let ?score = "\<lambda>m. minimax fuel (apply_move bd m) (AI_DEPTH - 1) (INT_MIN div 2) (INT_MAX div 2)
                    (\<not> white_turn)"
  assume a: "?moves \<noteq> [] \<and> map ?score ?moves = map Some ss"
  then have ne: "?moves \<noteq> []" and sc: "map ?score ?moves = map Some ss" by simp_all
  from sc have len: "length ss = length ?moves" by (metis length_map)
  with ne have ss0: "0 < length ss" by simp
  have bound: "\<bar>ss ! j\<bar> \<le> 1280000" if "j < length ss" for j
  proof -
    from sc that len have "?score (?moves ! j) = Some (ss ! j)"
      by (metis nth_map length_map)
    then show ?thesis by (rule minimax_bounds(1))
  qed
  have res: "choose_ai_move fuel AI_DEPTH bd white_turn =
      choose_loop fuel AI_DEPTH bd white_turn ?moves (if white_turn then INT_MIN else INT_MAX)
        (mk_move 0 0 0 0)"
    using ne by (simp add: choose_ai_move_def Let_def)
  show "\<exists>i < length ss. choose_ai_move fuel AI_DEPTH bd white_turn = Some (?moves ! i)
      \<and> (\<forall>j < length ss. if white_turn then ss ! j \<le> ss ! i else ss ! i \<le> ss ! j)
      \<and> (\<forall>j < i. if white_turn then ss ! j < ss ! i else ss ! i < ss ! j)"
  proof (cases white_turn)
    case True
    with sc have sc': "map (\<lambda>m. minimax fuel (apply_move bd m) (AI_DEPTH - 1) (INT_MIN div 2)
        (INT_MAX div 2) False) ?moves = map Some ss" by simp
    from bound [OF ss0] have "\<not> ss ! 0 \<le> INT_MIN" by (simp add: INT_MIN_def)
    with ss0 have "\<not> (\<forall>j < length ss. ss ! j \<le> INT_MIN)" by blast
    with choose_loop_white [OF sc', of INT_MIN "mk_move 0 0 0 0"] True show ?thesis
      unfolding res by auto
  next
    case False
    with sc have sc': "map (\<lambda>m. minimax fuel (apply_move bd m) (AI_DEPTH - 1) (INT_MIN div 2)
        (INT_MAX div 2) True) ?moves = map Some ss" by simp
    from bound [OF ss0] have "\<not> INT_MAX \<le> ss ! 0" by (simp add: INT_MAX_def)
    with ss0 have "\<not> (\<forall>j < length ss. INT_MAX \<le> ss ! j)" by blast
    with choose_loop_black [OF sc', of INT_MAX "mk_move 0 0 0 0"] False show ?thesis
      unfolding res by auto
  qed
next
  let ?score = "\<lambda>m. minimax fuel (apply_move bd m) (AI_DEPTH - 1) (INT_MIN div 2) (INT_MAX div 2)
                    (\<not> white_turn)"
  assume "1 \<le> AI_DEPTH \<and> nat (AI_DEPTH - 1) < fuel"
  then have d: "0 \<le> AI_DEPTH - 1" "nat (AI_DEPTH - 1) < fuel" by simp_all
  have "\<exists>ss. map ?score ms = map Some ss" for ms
  proof (induction ms)
    case Nil
    then show ?case by simp
  next
    case (Cons m ms)
    then obtain ss where ss: "map ?score ms = map Some ss" by blast
    from minimax_total(1) [OF d] obtain r where "?score m = Some r" by blast
    with ss have "map ?score (m # ms) = map Some (r # ss)" by simp
    then show ?case by blast
  qed
  then show "\<exists>ss. map ?score (generate_legal_moves bd white_turn) = map Some ss" .
qed

lemma kings_board_moves:
  "generate_legal_moves kings_board True = [mk_move 7 0 6 0, mk_move 7 0 7 1]"
  by code_simp

lemma kings_board_child1:
  "minimax 2 (apply_move kings_board (mk_move 7 0 6 0)) 1 (INT_MIN div 2) (INT_MAX div 2) False
     = Some 0"
  by code_simp

lemma kings_board_child2:
  "minimax 2 (apply_move kings_board (mk_move 7 0 7 1)) 1 (INT_MIN div 2) (INT_MAX div 2) False
     = Some 0"
  by code_simp

theorem move_selector_witness:
  "generate_legal_moves kings_board True = [mk_move 7 0 6 0, mk_move 7 0 7 1]
   \<and> choose_ai_move 2 2 kings_board True = Some (mk_move 7 0 6 0)
   \<and> choose_ai_move 2 2 mate_board True = Some (mk_move 0 0 0 0)"
proof -
  let ?ms = "[mk_move 7 0 6 0, mk_move 7 0 7 1]"
  let ?ss = "[0, 0 :: int]"
  have sc: "map (\<lambda>m. minimax 2 (apply_move kings_board m) (2 - 1) (INT_MIN div 2) (INT_MAX div 2)
              (\<not> True)) (generate_legal_moves kings_board True) = map Some ?ss"
    by (simp add: kings_board_moves kings_board_child1 kings_board_child2)
  have ne: "generate_legal_moves kings_board True \<noteq> []"
    by (simp add: kings_board_moves)
  from move_selector [of kings_board True 2 2 ?ss] ne sc
  have "\<exists>i < length ?ss. choose_ai_move 2 2 kings_board True
          = Some (generate_legal_moves kings_board True ! i)
      \<and> (\<forall>j < length ?ss. if True then ?ss ! j \<le> ?ss ! i else ?ss ! i \<le> ?ss ! j)
      \<and> (\<forall>j < i. if True then ?ss ! j < ?ss ! i else ?ss ! i < ?ss ! j)"
    by blast
  then obtain i where i: "i < length ?ss"
    and res: "choose_ai_move 2 2 kings_board True = Some (generate_legal_moves kings_board True ! i)"
    and first: "\<forall>j < i. ?ss ! j < ?ss ! i"
    by auto
  have "i = 0"
  proof (rule ccontr)
    assume "i \<noteq> 0"
    with i have "i = 1" by simp
    with first have "?ss ! 0 < ?ss ! 1" by blast
    then show False by simp
  qed
  with res have "choose_ai_move 2 2 kings_board True = Some (mk_move 7 0 6 0)"
    by (simp add: kings_board_moves)
  moreover from move_selector [of mate_board True 2 2 "[]"]
  have "choose_ai_move 2 2 mate_board True = Some (mk_move 0 0 0 0)"
    by (simp add: mate_board_eval mk_move_def)
  ultimately show ?thesis by (simp add: kings_board_moves)
qed

end
